theory Spec2Isabelle
  imports Main "HOL-Library.Multiset"
begin

unbundle bit_operations_syntax

section \<open>Data model of the weekly planner (src/src/App.tsx)\<close>

text \<open>
  A grid cell is \<open>string | null\<close>; the grid is \<open>(string | null)[][]\<close>, indexed
  \<open>[day][row]\<close>. JavaScript numbers that serve as indices are modelled as \<open>int\<close>.
\<close>

type_synonym cell = "string option"
type_synonym grid = "cell list list"

datatype ToolMode = Paint | Erase

record Activity =
  activity_id :: string
  activity_name :: string
  colour :: string
  icon :: string

record Plan =
  plan_id :: string
  plan_name :: string
  activities :: "Activity list"
  grid :: grid
  selectedActivityId :: "string option"
  tool :: ToolMode

text \<open>
  The test \<open>!v\<close> on a value of type \<open>string | null\<close>: true for \<open>null\<close> and for the
  empty string. The source uses it wherever it decides that a cell is free.
\<close>

definition falsy :: "string option \<Rightarrow> bool" where
  "falsy v = (case v of None \<Rightarrow> True | Some s \<Rightarrow> s = [])"

section \<open>reorderByIndex\<close>

text \<open>
  \<open>Array.prototype.splice(start, deleteCount, ...items)\<close>: the pair of the removed
  elements and the array afterwards. A negative start counts from the end, a start
  beyond the end is the end, and the delete count is clamped to what is there.
\<close>

definition splice_js :: "'a list \<Rightarrow> int \<Rightarrow> int \<Rightarrow> 'a list \<Rightarrow> 'a list \<times> 'a list" where
  "splice_js xs start deleteCount items =
     (let len = int (length xs);
          s = (if start < 0 then max (len + start) 0 else min start len);
          dc = min (max deleteCount 0) (len - s)
      in (take (nat dc) (drop (nat s) xs),
          take (nat s) xs @ items @ drop (nat (s + dc)) xs))"

text \<open>
  \<open>reorderByIndex(list, fromIndex, toIndex)\<close>. The destructuring
  \<open>const [item] = next.splice(fromIndex, 1)\<close> takes the first removed element; at this
  point \<open>0 \<le> fromIndex < n\<close>, so exactly one element was removed.
\<close>

definition reorderByIndex :: "'a list \<Rightarrow> int \<Rightarrow> int \<Rightarrow> 'a list" where
  "reorderByIndex list fromIndex toIndex =
     (let n = int (length list) in
      if fromIndex < 0 \<or> fromIndex \<ge> n then list
      else
        let toIndex1 = (if toIndex < 0 then 0 else toIndex);
            toIndex2 = (if toIndex1 \<ge> n then n - 1 else toIndex1)
        in if fromIndex = toIndex2 then list
           else
             let (removed, next1) = splice_js list fromIndex 1 [];
                 item = take 1 removed
             in snd (splice_js next1 toIndex2 0 item))"

text \<open>The index \<open>toIndex\<close> resolves to once clamped into \<open>[0, n - 1]\<close>.\<close>

definition clampIndex :: "int \<Rightarrow> int \<Rightarrow> int" where
  "clampIndex n toIndex =
     (let toIndex1 = (if toIndex < 0 then 0 else toIndex)
      in if toIndex1 \<ge> n then n - 1 else toIndex1)"

section \<open>The active plan and its updates\<close>

text \<open>
  \<open>activePlan = plans.find((p) => p.id === activePlanId) ?? plans[0]\<close>; with no plan at
  all it is \<open>undefined\<close>.
\<close>

definition activePlan :: "Plan list \<Rightarrow> string option \<Rightarrow> Plan option" where
  "activePlan plans activePlanId =
     (case find (\<lambda>p. Some (plan_id p) = activePlanId) plans of
        Some p \<Rightarrow> Some p
      | None \<Rightarrow> (case plans of [] \<Rightarrow> None | p # _ \<Rightarrow> Some p))"

text \<open>\<open>Array.prototype.findIndex\<close>: the first index whose element passes, or \<open>-1\<close>.\<close>

fun findIndex :: "('a \<Rightarrow> bool) \<Rightarrow> 'a list \<Rightarrow> int" where
  "findIndex P [] = - 1"
| "findIndex P (x # xs) =
     (if P x then 0 else (let i = findIndex P xs in if i < 0 then - 1 else i + 1))"

text \<open>
  \<open>updateActivePlan(updater)\<close>: the plan at the first index whose id is the active
  plan's is replaced by the patched plan (\<open>{...current, ...patch}\<close>, written here as the
  function from the current plan to the patched one); every other plan is kept. On an
  empty list \<open>findIndex\<close> calls nothing and gives \<open>-1\<close>, and the list is returned.
\<close>

definition updateActivePlan :: "(Plan \<Rightarrow> Plan) \<Rightarrow> Plan list \<Rightarrow> string option \<Rightarrow> Plan list" where
  "updateActivePlan updater plans activePlanId =
     (case activePlan plans activePlanId of
        None \<Rightarrow> plans
      | Some ap \<Rightarrow>
          (let idx = findIndex (\<lambda>p. plan_id p = plan_id ap) plans
           in if idx < 0 then plans
              else plans[nat idx := updater (plans ! nat idx)]))"

section \<open>Grid writes\<close>

datatype error = TypeError

text \<open>
  The assignment \<open>col[r] = v\<close> on a JavaScript array: inside the array it replaces the
  element; past the end it extends the array, the skipped positions being holes, which
  every reader of the grid takes as free (\<open>col[row] ?? null\<close>, \<open>!id\<close>) and which are
  written here as \<open>null\<close>; a negative \<open>r\<close> names a property that is no element.
\<close>

definition setCell :: "cell list \<Rightarrow> int \<Rightarrow> cell \<Rightarrow> cell list" where
  "setCell col r v =
     (if r < 0 then col
      else if nat r < length col then col[nat r := v]
      else col @ replicate (nat r - length col) None @ [v])"

text \<open>
  The loop \<open>for (let r = startRow; r < end; r++) nextGrid[dayIndex][r] = v\<close>. With no
  column at \<open>dayIndex\<close> the assignment throws a TypeError.
\<close>

function writeRows :: "grid \<Rightarrow> int \<Rightarrow> int \<Rightarrow> int \<Rightarrow> cell \<Rightarrow> error + grid" where
  "writeRows nextGrid dayIndex r end v =
     (if r < end then
        (if dayIndex < 0 \<or> int (length nextGrid) \<le> dayIndex then Inl TypeError
         else writeRows (nextGrid[nat dayIndex := setCell (nextGrid ! nat dayIndex) r v])
                dayIndex (r + 1) end v)
      else Inr nextGrid)"
  by pat_completeness auto
termination
  by (relation "measure (\<lambda>(g, d, r, e, v). nat (e - r))") auto

declare writeRows.simps [simp del]

text \<open>
  \<open>applyRange(dayIndex, startRow, len, activityIdOrNull)\<close>, as the updater it hands to
  \<open>updateActivePlan\<close>: the plan with the patch \<open>{ grid: nextGrid }\<close>. The copy
  \<open>p.grid.map((col) => col.slice())\<close> is the grid itself in a model without sharing.
\<close>

definition applyRange :: "int \<Rightarrow> int \<Rightarrow> int \<Rightarrow> cell \<Rightarrow> Plan \<Rightarrow> error + Plan" where
  "applyRange dayIndex startRow len activityIdOrNull p =
     (let nextGrid = map (\<lambda>col. col) (grid p);
          end = min 288 (startRow + len)
      in case writeRows nextGrid dayIndex startRow end activityIdOrNull of
           Inl e \<Rightarrow> Inl e
         | Inr g \<Rightarrow> Inr (p\<lparr>grid := g\<rparr>))"

text \<open>
  The shape every grid of the application has (\<open>buildEmptyWeek\<close>, the self tests and
  the import check): 7 day columns of 288 cells.
\<close>

definition wellFormed :: "grid \<Rightarrow> bool" where
  "wellFormed g = (length g = 7 \<and> (\<forall>col \<in> set g. length col = 288))"

definition buildEmptyWeek :: grid where
  "buildEmptyWeek = replicate 7 (replicate 288 None)"

section \<open>Deleting an activity\<close>

definition clearGridForActivity :: "grid \<Rightarrow> string \<Rightarrow> grid" where
  "clearGridForActivity g activityId =
     map (\<lambda>col. map (\<lambda>cell. if cell = Some activityId then None else cell) col) g"

text \<open>
  \<open>deleteActivity(activityId)\<close>, as the updater it hands to \<open>updateActivePlan\<close>: one
  patch of \<open>activities\<close>, \<open>grid\<close> and \<open>selectedActivityId\<close>.
  \<open>nextActivities[0]?.id ?? null\<close> is \<open>null\<close> when no activity is left.
\<close>

definition deleteActivity :: "string \<Rightarrow> Plan \<Rightarrow> Plan" where
  "deleteActivity activityId p =
     (let nextActivities = filter (\<lambda>a. activity_id a \<noteq> activityId) (activities p);
          nextGrid = clearGridForActivity (grid p) activityId;
          nextSelected =
            (if selectedActivityId p = Some activityId
             then (case nextActivities of [] \<Rightarrow> None | a # _ \<Rightarrow> Some (activity_id a))
             else selectedActivityId p)
      in p\<lparr>activities := nextActivities, grid := nextGrid,
           selectedActivityId := nextSelected\<rparr>)"

text \<open>No cell of the grid names an activity that is missing from the registry.\<close>

definition noDangling :: "Plan \<Rightarrow> bool" where
  "noDangling p =
     (\<forall>col \<in> set (grid p). \<forall>c \<in> set col.
        case c of None \<Rightarrow> True | Some i \<Rightarrow> i \<in> activity_id ` set (activities p))"

section \<open>Reorder engine: releasing a drag\<close>

datatype IndicatorPos = Above | Below

text \<open>
  The state of a reorder drag. The fields \<open>clientX\<close>, \<open>clientY\<close>, \<open>offsetY\<close>, \<open>width\<close>
  and \<open>height\<close> of the source only place the drag preview and are left out.
\<close>

record ReorderDrag =
  drag_id :: string
  pointerId :: int
  startIndex :: int
  insertIndex :: int
  indicatorId :: "string option"
  indicatorPos :: IndicatorPos

text \<open>
  \<open>onUp\<close> (pointerup and pointercancel): the drag state afterwards and the active plan
  afterwards. \<open>without[clamped]?.id ?? null\<close> is \<open>null\<close> past the end of \<open>without\<close>.
\<close>

definition onUp :: "int \<Rightarrow> ReorderDrag \<Rightarrow> Plan \<Rightarrow> ReorderDrag option \<times> Plan" where
  "onUp evPointerId reorderDrag p =
     (if evPointerId \<noteq> pointerId reorderDrag then (Some reorderDrag, p)
      else
        let draggedId = drag_id reorderDrag;
            fromIndex = findIndex (\<lambda>a. activity_id a = draggedId) (activities p);
            toIndex0 = insertIndex reorderDrag;
            toIndex =
              (if fromIndex \<ge> 0 then
                 let without = filter (\<lambda>a. activity_id a \<noteq> draggedId) (activities p);
                     clamped = max 0 (min (int (length without)) toIndex0);
                     beforeId = (if clamped < int (length without)
                                 then Some (activity_id (without ! nat clamped)) else None)
                 in if falsy beforeId then int (length (activities p)) - 1
                    else findIndex (\<lambda>a. Some (activity_id a) = beforeId) (activities p)
               else toIndex0)
        in (None,
            if fromIndex \<ge> 0 \<and> toIndex \<ge> 0 \<and> fromIndex \<noteq> toIndex
            then p\<lparr>activities := reorderByIndex (activities p) fromIndex toIndex\<rparr>
            else p))"

text \<open>The four-item activity list \<open>[A, B, C, D]\<close> of the reorder examples.\<close>

definition act :: "string \<Rightarrow> Activity" where
  "act i = \<lparr>activity_id = i, activity_name = i, colour = ''#8B5CF6'', icon = ''calendar''\<rparr>"

definition planABCD :: Plan where
  "planABCD = \<lparr>plan_id = ''p_1'', plan_name = ''Default'',
     activities = [act ''A'', act ''B'', act ''C'', act ''D''],
     grid = buildEmptyWeek,
     selectedActivityId = Some ''A'', tool = Paint\<rparr>"

definition dragOf :: "string \<Rightarrow> int \<Rightarrow> int \<Rightarrow> ReorderDrag" where
  "dragOf i start ins = \<lparr>drag_id = i, pointerId = 1, startIndex = start, insertIndex = ins,
     indicatorId = None, indicatorPos = Above\<rparr>"

text \<open>The plan \<open>planABCD\<close> with Monday painted with \<open>A\<close> throughout.\<close>

definition planMondayA :: Plan where
  "planMondayA = planABCD\<lparr>grid := replicate 288 (Some ''A'') # replicate 6 (replicate 288 None)\<rparr>"

section \<open>Counting the cells of a range\<close>

text \<open>
  A \<open>Map<string, number>\<close> as the list of its entries in insertion order: \<open>get\<close> is
  \<open>map_of\<close>, and \<open>set\<close> replaces the value of a key that is present, where it stands,
  and appends a new key at the end.
\<close>

type_synonym counts = "(string \<times> nat) list"

fun mapSet :: "('k \<times> 'v) list \<Rightarrow> 'k \<Rightarrow> 'v \<Rightarrow> ('k \<times> 'v) list" where
  "mapSet [] k v = [(k, v)]"
| "mapSet ((k', v') # m) k v = (if k' = k then (k, v) # m else (k', v') # mapSet m k v)"

text \<open>\<open>counts.get(id) ?? 0\<close>\<close>

definition getOr0 :: "counts \<Rightarrow> string \<Rightarrow> nat" where
  "getOr0 m i = (case map_of m i of None \<Rightarrow> 0 | Some c \<Rightarrow> c)"

text \<open>
  One step of the counting loops of \<open>allocationSummary\<close> and \<open>getStripeBackground\<close>:
  \<open>if (!v) free++; else counts.set(v, (counts.get(v) ?? 0) + 1)\<close>.
\<close>

definition countCell :: "cell \<Rightarrow> counts \<times> nat \<Rightarrow> counts \<times> nat" where
  "countCell v acc =
     (case acc of (counts, free) \<Rightarrow>
        (case v of
           None \<Rightarrow> (counts, free + 1)
         | Some i \<Rightarrow> if falsy v then (counts, free + 1)
                     else (mapSet counts i (getOr0 counts i + 1), free)))"

section \<open>Allocation summary\<close>

text \<open>\<open>(activePlan.grid?.[day] ?? [])[row] ?? null\<close>\<close>

definition cellAt :: "grid \<Rightarrow> nat \<Rightarrow> nat \<Rightarrow> cell" where
  "cellAt g day row =
     (let col = (if day < length g then g ! day else [])
      in if row < length col then col ! row else None)"

record AllocationSummary =
  minutesById :: "(string \<times> nat) list"
  freeMinutes :: nat
  totalMinutes :: nat

text \<open>The two nested loops over \<open>day < 7\<close> and \<open>row < 288\<close>.\<close>

definition scanGrid :: "grid \<Rightarrow> counts \<times> nat" where
  "scanGrid g =
     fold (\<lambda>day acc. fold (\<lambda>row acc. countCell (cellAt g day row) acc) [0..<288] acc)
       [0..<7] ([], 0)"

definition allocationSummary :: "Plan \<Rightarrow> AllocationSummary" where
  "allocationSummary p =
     (case scanGrid (grid p) of (counts, freeCells) \<Rightarrow>
        \<lparr>minutesById =
           fold (\<lambda>a m. mapSet m (activity_id a) (getOr0 counts (activity_id a) * 5))
             (activities p) [],
         freeMinutes = freeCells * 5,
         totalMinutes = 7 * 288 * 5\<rparr>)"

text \<open>\<open>allocationSummary.minutesById.get(a.id) ?? 0\<close>, the minutes shown beside an activity.\<close>

definition minutesOf :: "AllocationSummary \<Rightarrow> Activity \<Rightarrow> nat" where
  "minutesOf s a = getOr0 (minutesById s) (activity_id a)"

text \<open>The plan \<open>planABCD\<close> with one cell, Monday 00:00, naming an id that no activity has.\<close>

definition planStray :: Plan where
  "planStray = planABCD\<lparr>grid := (Some ''zzz'' # replicate 287 None) # replicate 6 (replicate 288 None)\<rparr>"

text \<open>
  The cells the two loops of \<open>allocationSummary\<close> visit, in the order they visit them,
  and the number of cells that count for a non-empty id.
\<close>

definition gridCells :: "grid \<Rightarrow> cell list" where
  "gridCells g = concat (map (\<lambda>day. map (\<lambda>row. cellAt g day row) [0..<288]) [0..<7])"

definition cellCount :: "cell list \<Rightarrow> string \<Rightarrow> nat" where
  "cellCount cs i = (if i = [] then 0 else count_list cs (Some i))"

section \<open>Stripes of a coarse row\<close>

text \<open>
  \<open>activityById\<close>, the \<open>Map\<close> built by \<open>m.set(a.id, a)\<close> over the registry in order: for
  an id that occurs twice the later activity stays.
\<close>

definition activityById :: "Activity list \<Rightarrow> string \<Rightarrow> Activity option" where
  "activityById acts i = find (\<lambda>a. activity_id a = i) (rev acts)"

text \<open>
  \<open>activePlan.grid?.[dayIndex]?.slice(startRow, startRow + viewStep) ?? []\<close>, for the
  indices the grid view passes: \<open>startRow = visIndex * viewStep\<close> and a day of \<open>DAYS\<close>.
\<close>

definition rowSlots :: "grid \<Rightarrow> nat \<Rightarrow> nat \<Rightarrow> nat \<Rightarrow> cell list" where
  "rowSlots g dayIndex startRow viewStep =
     (if dayIndex < length g then take viewStep (drop startRow (g ! dayIndex)) else [])"

record Segment =
  seg_key :: string
  seg_colour :: string
  seg_n :: nat
  seg_label :: string

definition segmentOf :: "Activity list \<Rightarrow> string \<times> nat \<Rightarrow> Segment" where
  "segmentOf acts e =
     (case e of (i, n) \<Rightarrow>
        \<lparr>seg_key = i,
         seg_colour = (case activityById acts i of Some a \<Rightarrow> colour a | None \<Rightarrow> ''#A3A3A3''),
         seg_n = n,
         seg_label = (case activityById acts i of Some a \<Rightarrow> activity_name a | None \<Rightarrow> ''Unknown'')\<rparr>)"

definition freeSegment :: "nat \<Rightarrow> Segment" where
  "freeSegment free =
     \<lparr>seg_key = ''__free__'', seg_colour = ''rgba(255,255,255,0.06)'', seg_n = free,
      seg_label = ''Free''\<rparr>"

text \<open>
  \<open>segments.sort((a, b) => b.n - a.n)\<close>. \<open>Array.prototype.sort\<close> is stable, so the result
  is the stable sort by descending \<open>n\<close>, which \<open>sort_key\<close> (insertion sort) computes.
\<close>

definition sortSegments :: "Segment list \<Rightarrow> Segment list" where
  "sortSegments segments = sort_key (\<lambda>s. - int (seg_n s)) segments"

text \<open>
  The array \<open>segments\<close> of \<open>getStripeBackground\<close> after the sort: one segment per entry
  of \<open>counts\<close>, in the order of \<open>counts.entries()\<close>, then the free segment when
  \<open>free > 0\<close>, then sorted.
\<close>

definition stripeSegments :: "Activity list \<Rightarrow> cell list \<Rightarrow> Segment list" where
  "stripeSegments acts ids =
     (case fold countCell ids ([], 0) of (counts, free) \<Rightarrow>
        sortSegments (map (segmentOf acts) counts @ (if free > 0 then [freeSegment free] else [])))"

text \<open>
  The colour stops of the gradient, one per segment in order, each with the slot counts
  accumulated before and after it: the source prints them as percentages of \<open>viewStep\<close>.
  The tooltip has one line per segment with \<open>n > 0\<close>: its label and \<open>n * 5\<close> minutes.
\<close>

fun stops :: "nat \<Rightarrow> Segment list \<Rightarrow> (string \<times> nat \<times> nat) list" where
  "stops acc [] = []"
| "stops acc (s # ss) = (seg_colour s, acc, acc + seg_n s) # stops (acc + seg_n s) ss"

definition tipLines :: "Segment list \<Rightarrow> (string \<times> nat) list" where
  "tipLines segments = map (\<lambda>s. (seg_label s, seg_n s * 5)) (filter (\<lambda>s. seg_n s > 0) segments)"

datatype Stripe =
  Free
| Single "Activity option"
| Mixed "(string \<times> nat \<times> nat) list" "(string \<times> nat) list"

definition getStripeBackground :: "Plan \<Rightarrow> nat \<Rightarrow> nat \<Rightarrow> nat \<Rightarrow> Stripe" where
  "getStripeBackground p viewStep dayIndex startRow =
     (let ids = rowSlots (grid p) dayIndex startRow viewStep
      in case fold countCell ids ([], 0) of (counts, free) \<Rightarrow>
           if length counts = 0 then Free
           else if length counts = 1 \<and> free = 0
           then Single (activityById (activities p) (fst (hd counts)))
           else let segments = stripeSegments (activities p) ids
                in Mixed (stops 0 segments) (tipLines segments))"

text \<open>
  The ids of a range in the order of their first occurrence: the order in which a scan
  from the lowest slot to the highest meets the activities.
\<close>

fun firstSeen :: "'a list \<Rightarrow> 'a list" where
  "firstSeen [] = []"
| "firstSeen (x # xs) = x # filter (\<lambda>y. y \<noteq> x) (firstSeen xs)"

definition activityIds :: "cell list \<Rightarrow> string list" where
  "activityIds ids =
     concat (map (\<lambda>c. case c of None \<Rightarrow> [] | Some i \<Rightarrow> if i = [] then [] else [i]) ids)"

text \<open>
  Plans for the stripe examples: Monday's first three slots are free, \<open>A\<close>, \<open>B\<close>; and
  Monday's first twelve slots are six of \<open>A\<close>, then six of \<open>B\<close>.
\<close>

definition planTie :: Plan where
  "planTie = planABCD\<lparr>grid := (None # Some ''A'' # Some ''B'' # replicate 285 None) # replicate 6 (replicate 288 None)\<rparr>"


section \<open>Paint engine\<close>

text \<open>
  The refs of the paint gesture (\<open>isMouseDownRef\<close>, \<open>dragPaintModeRef\<close>, \<open>lastPaintRef\<close>
  with its fields \<open>day\<close> and \<open>row\<close>) together with the active plan. The field
  \<open>applied\<close> is no variable of the source: it records the calls of \<open>applyRange\<close> made
  so far, oldest first, as (day, start row, length, value), so that writes can be
  counted.
\<close>

record PaintState =
  isMouseDown :: bool
  dragPaintMode :: ToolMode
  lastPaintDay :: "int option"
  lastPaintRow :: "int option"
  ps_plan :: Plan
  applied :: "(int \<times> int \<times> int \<times> cell) list"

text \<open>
  The last two lines of both handlers:
  \<open>if (mode === "erase") applyRange(dayIndex, startRow, viewStep, null);
  else applyRange(dayIndex, startRow, viewStep, activePlan.selectedActivityId ?? null)\<close>.
\<close>

definition paintAt :: "int \<Rightarrow> int \<Rightarrow> int \<Rightarrow> ToolMode \<Rightarrow> PaintState \<Rightarrow> error + PaintState" where
  "paintAt viewStep dayIndex startRow mode st =
     (let v = (if mode = Erase then None else selectedActivityId (ps_plan st))
      in case applyRange dayIndex startRow viewStep v (ps_plan st) of
           Inl e \<Rightarrow> Inl e
         | Inr p' \<Rightarrow> Inr (st\<lparr>ps_plan := p',
                             applied := applied st @ [(dayIndex, startRow, viewStep, v)]\<rparr>))"

definition onCellPointerEnter :: "int \<Rightarrow> int \<Rightarrow> int \<Rightarrow> PaintState \<Rightarrow> error + PaintState" where
  "onCellPointerEnter viewStep dayIndex startRow st =
     (if \<not> isMouseDown st then Inr st
      else if lastPaintDay st = Some dayIndex \<and> lastPaintRow st = Some startRow then Inr st
      else paintAt viewStep dayIndex startRow (dragPaintMode st)
             (st\<lparr>lastPaintDay := Some dayIndex, lastPaintRow := Some startRow\<rparr>))"

text \<open>
  \<open>onCellPointerDown(e, dayIndex, startRow)\<close>, with the event's \<open>button\<close> and \<open>buttons\<close>:
  \<open>isRightClick = e.button === 2 || (buttons & 2) === 2\<close>.
\<close>

definition onCellPointerDown :: "int \<Rightarrow> int \<Rightarrow> int \<Rightarrow> int \<Rightarrow> int \<Rightarrow> PaintState \<Rightarrow> error + PaintState" where
  "onCellPointerDown viewStep button buttons dayIndex startRow st =
     (let isRightClick = (button = 2 \<or> buttons AND 2 = 2);
          mode = (if isRightClick then Erase else tool (ps_plan st))
      in paintAt viewStep dayIndex startRow mode
           (st\<lparr>isMouseDown := True, lastPaintDay := Some dayIndex, lastPaintRow := Some startRow,
                dragPaintMode := mode\<rparr>))"

text \<open>The window's \<open>mouseup\<close> and \<open>mouseleave\<close> handler, which ends a paint gesture.\<close>

definition onUp_paint :: "PaintState \<Rightarrow> PaintState" where
  "onUp_paint st = st\<lparr>isMouseDown := False, dragPaintMode := Paint,
                        lastPaintDay := None, lastPaintRow := None\<rparr>"

text \<open>
  A stroke: one \<open>onCellPointerDown\<close> on the cell \<open>c0\<close>, then \<open>onCellPointerEnter\<close> on the
  cells \<open>cs\<close> in order, then the release. A cell is (day, start row).
\<close>

fun continueStroke :: "int \<Rightarrow> (int \<times> int) list \<Rightarrow> PaintState \<Rightarrow> error + PaintState" where
  "continueStroke viewStep [] st = Inr st"
| "continueStroke viewStep ((d, r) # cs) st =
     (case onCellPointerEnter viewStep d r st of
        Inl e \<Rightarrow> Inl e
      | Inr st' \<Rightarrow> continueStroke viewStep cs st')"

definition stroke :: "int \<Rightarrow> int \<Rightarrow> int \<Rightarrow> (int \<times> int) \<Rightarrow> (int \<times> int) list \<Rightarrow> PaintState \<Rightarrow> error + PaintState" where
  "stroke viewStep button buttons c0 cs st =
     (case onCellPointerDown viewStep button buttons (fst c0) (snd c0) st of
        Inl e \<Rightarrow> Inl e
      | Inr st1 \<Rightarrow> (case continueStroke viewStep cs st1 of
                      Inl e \<Rightarrow> Inl e
                    | Inr st2 \<Rightarrow> Inr (onUp_paint st2)))"

text \<open>
  For comparison with a stroke: \<open>applyRange\<close> called once for each cell of a list, in
  order, with one value and one length.
\<close>

fun paintCells :: "int \<Rightarrow> cell \<Rightarrow> (int \<times> int) list \<Rightarrow> Plan \<Rightarrow> error + Plan" where
  "paintCells viewStep v [] p = Inr p"
| "paintCells viewStep v ((d, r) # cs) p =
     (case applyRange d r viewStep v p of
        Inl e \<Rightarrow> Inl e
      | Inr p' \<Rightarrow> paintCells viewStep v cs p')"

text \<open>
  The cells the grid view offers (a day of \<open>DAYS\<close>, a start row below 288), the slots a
  list of cells covers at a view step, and the value a stroke of a mode writes.
\<close>

definition validCell :: "int \<times> int \<Rightarrow> bool" where
  "validCell c = (0 \<le> fst c \<and> fst c < 7 \<and> 0 \<le> snd c \<and> snd c < 288)"

definition covers :: "int \<Rightarrow> (int \<times> int) list \<Rightarrow> nat \<Rightarrow> nat \<Rightarrow> bool" where
  "covers viewStep cs d r =
     (\<exists>c \<in> set cs. int d = fst c \<and> snd c \<le> int r \<and> int r < min 288 (snd c + viewStep))"

definition strokeValue :: "ToolMode \<Rightarrow> Plan \<Rightarrow> cell" where
  "strokeValue mode p = (if mode = Erase then None else selectedActivityId p)"

definition idlePaint :: PaintState where
  "idlePaint = \<lparr>isMouseDown = False, dragPaintMode = Paint, lastPaintDay = None,
     lastPaintRow = None, ps_plan = planABCD, applied = []\<rparr>"

section \<open>Importing a document\<close>

text \<open>
  The value \<open>JSON.parse\<close> returns. The import check asks for the type of a number only,
  never for its value, so numbers are carried as integers. An object is the list of its
  own properties.
\<close>

datatype json = JNull | JBool bool | JNum int | JStr string | JArr "json list"
  | JObj "(string \<times> json) list"

text \<open>
  The tests of \<open>applyImport\<close> on a parsed value: \<open>!!j\<close>; \<open>typeof j === "object"\<close>, which
  holds of \<open>null\<close> and of arrays too; the property \<open>j.k\<close>, \<open>undefined\<close> on anything but an
  object that has it (the names read are \<open>plans\<close>, \<open>activePlanId\<close>, \<open>id\<close>, \<open>name\<close>,
  \<open>activities\<close> and \<open>grid\<close>, none of which an array has); \<open>Array.isArray(j.k)\<close> with the
  elements; \<open>typeof j.k === "string"\<close> with the string; and
  \<open>Array.isArray(col) && col.length === n\<close>.
\<close>

definition truthy :: "json \<Rightarrow> bool" where
  "truthy j = (case j of JNull \<Rightarrow> False | JBool b \<Rightarrow> b | JNum n \<Rightarrow> n \<noteq> 0
                | JStr s \<Rightarrow> s \<noteq> [] | JArr _ \<Rightarrow> True | JObj _ \<Rightarrow> True)"

definition typeofObject :: "json \<Rightarrow> bool" where
  "typeofObject j = (case j of JNull \<Rightarrow> True | JArr _ \<Rightarrow> True | JObj _ \<Rightarrow> True | _ \<Rightarrow> False)"

definition getProp :: "json \<Rightarrow> string \<Rightarrow> json option" where
  "getProp j k = (case j of JObj fs \<Rightarrow> map_of fs k | _ \<Rightarrow> None)"

definition arrayProp :: "json \<Rightarrow> string \<Rightarrow> json list option" where
  "arrayProp j k = (case getProp j k of Some (JArr xs) \<Rightarrow> Some xs | _ \<Rightarrow> None)"

definition stringProp :: "json \<Rightarrow> string \<Rightarrow> string option" where
  "stringProp j k = (case getProp j k of Some (JStr s) \<Rightarrow> Some s | _ \<Rightarrow> None)"

definition isArrayOfLength :: "nat \<Rightarrow> json \<Rightarrow> bool" where
  "isArrayOfLength n j = (case j of JArr xs \<Rightarrow> length xs = n | _ \<Rightarrow> False)"

text \<open>
  The callback of \<open>v.plans.every(...)\<close>; \<open>gridOk\<close> is its last three conjuncts:
  \<open>Array.isArray(p.grid) && p.grid.length === 7 &&
  p.grid.every((col) => Array.isArray(col) && col.length === 288)\<close>.
\<close>

definition gridOk :: "json \<Rightarrow> bool" where
  "gridOk p =
     (case arrayProp p ''grid'' of
        Some cols \<Rightarrow> length cols = 7 \<and> list_all (isArrayOfLength 288) cols
      | None \<Rightarrow> False)"

definition planOk :: "json \<Rightarrow> bool" where
  "planOk p =
     (truthy p \<and> typeofObject p \<and> stringProp p ''id'' \<noteq> None \<and>
      stringProp p ''name'' \<noteq> None \<and> arrayProp p ''activities'' \<noteq> None \<and> gridOk p)"

datatype StatusType = StatusOk | StatusError

text \<open>
  The state \<open>applyImport\<close> writes: \<open>plans\<close>, \<open>activePlanId\<close> and \<open>jsonStatus\<close>. The plans
  are held as the values they are at run time: \<open>setPlans(v.plans)\<close> stores the parsed
  values unchanged, whatever their fields.
\<close>

record ImportState =
  st_plans :: "json list"
  st_activePlanId :: "string option"
  jsonStatus :: "(StatusType \<times> string) option"

text \<open>
  \<open>applyImport\<close>, on the result of \<open>safeParseJSON(jsonBuffer)\<close>: the error text of a
  failed parse, or the parsed value. After the check \<open>v.plans[0].id\<close> is a string.
\<close>

definition applyImport :: "string + json \<Rightarrow> ImportState \<Rightarrow> ImportState" where
  "applyImport parsed st =
     (case parsed of
        Inl err \<Rightarrow> st\<lparr>jsonStatus := Some (StatusError, err)\<rparr>
      | Inr v \<Rightarrow>
          if \<not> truthy v \<or> \<not> typeofObject v
          then st\<lparr>jsonStatus := Some (StatusError, ''JSON must be an object.'')\<rparr>
          else
            (case arrayProp v ''plans'' of
               None \<Rightarrow>
                 st\<lparr>jsonStatus :=
                      Some (StatusError, ''JSON must include a non-empty 'plans' array.'')\<rparr>
             | Some ps \<Rightarrow>
                 if length ps = 0
                 then st\<lparr>jsonStatus :=
                        Some (StatusError, ''JSON must include a non-empty 'plans' array.'')\<rparr>
                 else if \<not> list_all planOk ps
                 then st\<lparr>jsonStatus :=
                        Some (StatusError,
                          ''One or more plans are invalid. Expected 7x288 grid per plan.'')\<rparr>
                 else st\<lparr>st_plans := ps,
                         st_activePlanId :=
                           (case stringProp v ''activePlanId'' of
                              Some s \<Rightarrow> Some s
                            | None \<Rightarrow> stringProp (hd ps) ''id''),
                         jsonStatus := Some (StatusOk, ''Imported successfully.'')\<rparr>))"

text \<open>A parsed value that passes every check of \<open>applyImport\<close>.\<close>

definition validDocument :: "json \<Rightarrow> bool" where
  "validDocument v =
     (truthy v \<and> typeofObject v \<and>
      (case arrayProp v ''plans'' of Some ps \<Rightarrow> ps \<noteq> [] \<and> list_all planOk ps | None \<Rightarrow> False))"

text \<open>
  Documents for the import examples: a plan whose two activity entries are an object
  with neither \<open>id\<close> nor \<open>name\<close> and a number; a plan whose grid has six columns; and a
  state that holds one plan of the user's.
\<close>

definition emptyGridJson :: json where
  "emptyGridJson = JArr (replicate 7 (JArr (replicate 288 JNull)))"

definition planBadActivity :: json where
  "planBadActivity =
     JObj [(''id'', JStr ''p_1''), (''name'', JStr ''Default''),
           (''activities'', JArr [JObj [(''colour'', JStr ''#E11D48'')], JNum 7]),
           (''grid'', emptyGridJson),
           (''selectedActivityId'', JNull), (''tool'', JStr ''paint'')]"

definition docBadActivity :: json where
  "docBadActivity =
     JObj [(''version'', JNum 3), (''activePlanId'', JNull), (''plans'', JArr [planBadActivity])]"

definition planSixColumns :: json where
  "planSixColumns =
     JObj [(''id'', JStr ''p_1''), (''name'', JStr ''Default''), (''activities'', JArr []),
           (''grid'', JArr (replicate 6 (JArr (replicate 288 JNull)))),
           (''selectedActivityId'', JNull), (''tool'', JStr ''paint'')]"

definition docSixColumns :: json where
  "docSixColumns =
     JObj [(''version'', JNum 3), (''activePlanId'', JNull), (''plans'', JArr [planSixColumns])]"

definition importIdle :: ImportState where
  "importIdle = \<lparr>st_plans = [JObj [(''id'', JStr ''p_0''), (''name'', JStr ''Mine''),
                                   (''activities'', JArr []), (''grid'', emptyGridJson),
                                   (''selectedActivityId'', JNull), (''tool'', JStr ''paint'')]],
                  st_activePlanId = Some ''p_0'', jsonStatus = None\<rparr>"

section \<open>Properties of reorderByIndex\<close>

lemma reorderByIndex_out_of_range:
  "fromIndex < 0 \<or> int (length xs) \<le> fromIndex \<Longrightarrow> reorderByIndex xs fromIndex toIndex = xs"
  by (auto simp: reorderByIndex_def Let_def)

lemma reorderByIndex_same:
  "clampIndex (int (length xs)) toIndex = fromIndex \<Longrightarrow> reorderByIndex xs fromIndex toIndex = xs"
  by (auto simp: reorderByIndex_def clampIndex_def Let_def)

lemma reorderByIndex_move:
  assumes "0 \<le> fromIndex" "fromIndex < int (length xs)"
    and "clampIndex (int (length xs)) toIndex = t" "t \<noteq> fromIndex"
  shows "reorderByIndex xs fromIndex toIndex =
           (let ys = take (nat fromIndex) xs @ drop (Suc (nat fromIndex)) xs
            in take (nat t) ys @ [xs ! nat fromIndex] @ drop (nat t) ys)"
proof -
  let ?f = "nat fromIndex"
  have f: "?f < length xs" using assms by linarith
  have t: "0 \<le> t" "t < int (length xs)"
    using assms by (auto simp: clampIndex_def Let_def split: if_splits)
  have rem: "splice_js xs fromIndex 1 [] = ([xs ! ?f], take ?f xs @ drop (Suc ?f) xs)"
  proof -
    have "take (Suc 0) (drop ?f xs) = [xs ! ?f]"
      using f by (simp add: take_Suc_conv_app_nth)
    moreover have "nat (fromIndex + 1) = Suc ?f" using assms by linarith
    moreover have "min 1 (int (length xs) - fromIndex) = 1" using assms by linarith
    ultimately show ?thesis
      using assms by (simp add: splice_js_def Let_def min_absorb1 max_absorb1)
  qed
  let ?ys = "take ?f xs @ drop (Suc ?f) xs"
  have len: "int (length ?ys) = int (length xs) - 1" using f by auto
  have tle: "t \<le> int (length ?ys)" using t len by linarith
  have ins: "snd (splice_js ?ys t 0 [xs ! ?f]) = take (nat t) ?ys @ [xs ! ?f] @ drop (nat t) ?ys"
    using t tle unfolding splice_js_def Let_def by (simp add: min_absorb1 max_absorb2)
  have "reorderByIndex xs fromIndex toIndex = snd (splice_js ?ys t 0 [xs ! ?f])"
    using assms rem by (auto simp: reorderByIndex_def clampIndex_def Let_def)
  with ins show ?thesis by (simp add: Let_def)
qed

lemma mset_remove_nth:
  "i < length xs \<Longrightarrow> mset (take i xs @ drop (Suc i) xs) + {#xs ! i#} = mset xs"
proof -
  assume i: "i < length xs"
  have "xs = take i xs @ xs ! i # drop (Suc i) xs"
    using i by (simp add: id_take_nth_drop)
  then have "mset xs = mset (take i xs @ xs ! i # drop (Suc i) xs)" by simp
  then show ?thesis by simp
qed

lemma mset_insert_at:
  "mset (take k ys @ [x] @ drop k ys) = mset ys + {#x#}"
proof -
  have "mset (take k ys) + mset (drop k ys) = mset ys"
    by (metis append_take_drop_id mset_append)
  then show ?thesis by simp
qed

text \<open>
  C10. \<open>reorderByIndex\<close> returns a permutation of its input for every list and every
  pair of integers: with \<open>fromIndex\<close> outside \<open>[0, length)\<close> the list comes back
  unchanged; otherwise \<open>toIndex\<close> is clamped into \<open>[0, length - 1]\<close>, equal resolved
  indices give the list back unchanged, and different ones remove the element at
  \<open>fromIndex\<close> and insert it again at the clamped \<open>toIndex\<close>.
\<close>

theorem reorderByIndex_permutation:
  "mset (reorderByIndex xs fromIndex toIndex) = mset xs \<and>
   (if fromIndex < 0 \<or> int (length xs) \<le> fromIndex
    then reorderByIndex xs fromIndex toIndex = xs
    else 0 \<le> clampIndex (int (length xs)) toIndex \<and>
         clampIndex (int (length xs)) toIndex \<le> int (length xs) - 1 \<and>
         (if fromIndex = clampIndex (int (length xs)) toIndex
          then reorderByIndex xs fromIndex toIndex = xs
          else reorderByIndex xs fromIndex toIndex =
                 (let ys = take (nat fromIndex) xs @ drop (Suc (nat fromIndex)) xs;
                      t = nat (clampIndex (int (length xs)) toIndex)
                  in take t ys @ [xs ! nat fromIndex] @ drop t ys)))"
proof (cases "fromIndex < 0 \<or> int (length xs) \<le> fromIndex")
  case True
  then show ?thesis by (simp add: reorderByIndex_out_of_range)
next
  case False
  let ?t = "clampIndex (int (length xs)) toIndex"
  have rng: "0 \<le> ?t \<and> ?t \<le> int (length xs) - 1"
    using False by (auto simp: clampIndex_def Let_def)
  show ?thesis
  proof (cases "fromIndex = ?t")
    case True
    with False rng show ?thesis by (simp add: reorderByIndex_same)
  next
    case ne: False
    have mv: "reorderByIndex xs fromIndex toIndex =
                (let ys = take (nat fromIndex) xs @ drop (Suc (nat fromIndex)) xs
                 in take (nat ?t) ys @ [xs ! nat fromIndex] @ drop (nat ?t) ys)"
      using False ne by (intro reorderByIndex_move) auto
    have f: "nat fromIndex < length xs" using False by linarith
    have "mset (reorderByIndex xs fromIndex toIndex) = mset xs"
      unfolding mv Let_def mset_insert_at using mset_remove_nth [OF f] by simp
    with False ne rng mv show ?thesis by (simp add: Let_def)
  qed
qed

theorem reorderByIndex_permutation_witness:
  "reorderByIndex [''a'', ''b'', ''c'', ''d''] 1 7 = [''a'', ''c'', ''d'', ''b''] \<and>
   reorderByIndex [''a'', ''b'', ''c''] 2 (- 4) = [''c'', ''a'', ''b''] \<and>
   reorderByIndex [''a'', ''b'', ''c''] 5 0 = [''a'', ''b'', ''c'']"
  using reorderByIndex_permutation [of "[''a'', ''b'', ''c'', ''d'']" 1 7]
    reorderByIndex_permutation [of "[''a'', ''b'', ''c'']" 2 "- 4"]
    reorderByIndex_permutation [of "[''a'', ''b'', ''c'']" 5 0]
  by (simp add: clampIndex_def Let_def)

section \<open>Releasing a reorder drag\<close>

text \<open>
  C1. Releasing the drag of \<open>A\<close> (index 0 of \<open>[A, B, C, D]\<close>) with the insertion index
  2, that is before sibling \<open>D\<close> in \<open>[B, C, D]\<close>, resolves the target to \<open>D\<close>'s index 3
  in the original order and gives \<open>[B, C, D, A]\<close>, not \<open>[B, C, A, D]\<close>. Releasing the
  drag of \<open>C\<close> (index 2) with the insertion index 0 gives \<open>[C, A, B, D]\<close>, and a release
  whose resolved index is the start index (\<open>D\<close> dropped after the last remaining item)
  leaves the plan as it was. A release of \<open>A\<close> with the insertion index it started
  with, 0, resolves to index 1 and gives \<open>[B, A, C, D]\<close>.
\<close>

theorem onUp_reorder_examples:
  "map activity_id (activities (snd (onUp 1 (dragOf ''A'' 0 2) planABCD))) = [''B'', ''C'', ''D'', ''A''] \<and>
   map activity_id (activities (snd (onUp 1 (dragOf ''C'' 2 0) planABCD))) = [''C'', ''A'', ''B'', ''D''] \<and>
   snd (onUp 1 (dragOf ''D'' 3 3) planABCD) = planABCD \<and>
   map activity_id (activities (snd (onUp 1 (dragOf ''A'' 0 0) planABCD))) = [''B'', ''A'', ''C'', ''D'']"
  by (simp add: onUp_def dragOf_def planABCD_def act_def falsy_def reorderByIndex_def
      splice_js_def Let_def)

section \<open>Updating the active plan\<close>

lemma findIndex_first:
  "find P xs = Some x \<Longrightarrow>
     0 \<le> findIndex P xs \<and> nat (findIndex P xs) < length xs \<and> xs ! nat (findIndex P xs) = x \<and>
     (\<forall>j < nat (findIndex P xs). \<not> P (xs ! j))"
proof (induction xs)
  case Nil
  then show ?case by simp
next
  case (Cons y ys)
  show ?case
  proof (cases "P y")
    case True
    with Cons.prems show ?thesis by simp
  next
    case False
    with Cons.prems have f: "find P ys = Some x" by simp
    note ih = Cons.IH [OF f]
    have nn: "\<not> findIndex P ys < 0" using ih by linarith
    have n: "nat (findIndex P ys + 1) = Suc (nat (findIndex P ys))" using ih by linarith
    show ?thesis using False ih nn n by (auto simp: Let_def nth_Cons less_Suc_eq_0_disj)
  qed
qed

lemma find_update_first:
  assumes "i < length xs" "\<forall>j < i. \<not> P (xs ! j)" "P y"
  shows "find P (xs[i := y]) = Some y"
  using assms
proof (induction xs arbitrary: i)
  case Nil
  then show ?case by simp
next
  case (Cons x xs)
  show ?case
  proof (cases i)
    case 0
    with Cons.prems show ?thesis by simp
  next
    case (Suc k)
    have "\<not> P x" using Cons.prems(2) Suc by auto
    moreover have "find P (xs[k := y]) = Some y"
      using Cons.prems Suc by (intro Cons.IH) auto
    ultimately show ?thesis using Suc by simp
  qed
qed

lemma find_None_update:
  "find P xs = None \<Longrightarrow> \<not> P y \<Longrightarrow> find P (xs[i := y]) = None"
  by (auto simp: find_None_iff dest: set_update_subset_insert [THEN subsetD])

text \<open>
  An updater that keeps the plan's id changes exactly the active plan: afterwards the
  active plan is the updater's result on the active plan before.
\<close>

lemma activePlan_updateActivePlan:
  assumes keep: "\<And>q. plan_id (updater q) = plan_id q"
  shows "activePlan (updateActivePlan updater plans activePlanId) activePlanId =
           map_option updater (activePlan plans activePlanId)"
proof (cases "find (\<lambda>p. Some (plan_id p) = activePlanId) plans")
  case (Some ap)
  let ?P = "\<lambda>p. Some (plan_id p) = activePlanId"
  have ap: "activePlan plans activePlanId = Some ap" using Some by (simp add: activePlan_def)
  have Pap: "?P ap" using Some by (auto dest: find_Some_iff [THEN iffD1])
  have same: "(\<lambda>p. plan_id p = plan_id ap) = ?P"
    using Pap by (auto simp: fun_eq_iff)
  note fi = findIndex_first [OF Some]
  let ?i = "nat (findIndex ?P plans)"
  have upd: "updateActivePlan updater plans activePlanId = plans[?i := updater ap]"
    using ap fi by (simp add: updateActivePlan_def same Let_def)
  have "find ?P (plans[?i := updater ap]) = Some (updater ap)"
    using fi Pap keep by (intro find_update_first) auto
  then show ?thesis using upd ap by (simp add: activePlan_def)
next
  case None
  let ?P = "\<lambda>p. Some (plan_id p) = activePlanId"
  show ?thesis
  proof (cases plans)
    case Nil
    then show ?thesis by (simp add: activePlan_def updateActivePlan_def)
  next
    case (Cons p ps)
    have ap: "activePlan plans activePlanId = Some p"
      using None Cons by (simp add: activePlan_def)
    have upd: "updateActivePlan updater plans activePlanId = updater p # ps"
      using ap Cons by (simp add: updateActivePlan_def)
    have np: "\<not> ?P p" using None Cons by (auto simp: find_None_iff)
    then have "\<not> ?P (updater p)" using keep by simp
    moreover have "find ?P ps = None" using None Cons np by simp
    ultimately have "find ?P (updater p # ps) = None" by simp
    then show ?thesis using upd ap by (simp add: activePlan_def)
  qed
qed

section \<open>Range writes\<close>

lemma writeRows_in_range:
  "0 \<le> dayIndex \<Longrightarrow> nat dayIndex < length g \<Longrightarrow> 0 \<le> r \<Longrightarrow>
   e \<le> int (length (g ! nat dayIndex)) \<Longrightarrow>
   \<exists>g'. writeRows g dayIndex r e v = Inr g' \<and> length g' = length g \<and>
     (\<forall>d < length g. length (g' ! d) = length (g ! d) \<and>
        (\<forall>k < length (g ! d). g' ! d ! k =
           (if d = nat dayIndex \<and> r \<le> int k \<and> int k < e then v else g ! d ! k)))"
proof (induction g dayIndex r e v rule: writeRows.induct)
  case (1 g dayIndex r e v)
  show ?case
  proof (cases "r < e")
    case False
    then show ?thesis by (subst writeRows.simps) auto
  next
    case True
    let ?d = "nat dayIndex"
    let ?g1 = "g[?d := setCell (g ! ?d) r v]"
    have rlt: "nat r < length (g ! ?d)" using True 1 by linarith
    have sc: "setCell (g ! ?d) r v = (g ! ?d)[nat r := v]"
      using rlt 1 by (simp add: setCell_def)
    have inb: "\<not> (dayIndex < 0 \<or> int (length g) \<le> dayIndex)" using 1 by linarith
    have len1: "length (?g1 ! ?d) = length (g ! ?d)" using 1 sc by simp
    from "1.IH" [OF True inb] 1 len1
    obtain g' where g': "writeRows ?g1 dayIndex (r + 1) e v = Inr g'" "length g' = length g"
      and pt: "\<forall>d < length g. length (g' ! d) = length (?g1 ! d) \<and>
        (\<forall>k < length (?g1 ! d). g' ! d ! k =
           (if d = ?d \<and> r + 1 \<le> int k \<and> int k < e then v else ?g1 ! d ! k))"
      by auto
    have w: "writeRows g dayIndex r e v = Inr g'"
      using True inb g' by (subst writeRows.simps) simp
    have "\<forall>d < length g. length (g' ! d) = length (g ! d) \<and>
        (\<forall>k < length (g ! d). g' ! d ! k =
           (if d = ?d \<and> r \<le> int k \<and> int k < e then v else g ! d ! k))"
    proof (intro allI impI conjI)
      fix d assume d: "d < length g"
      show l: "length (g' ! d) = length (g ! d)"
        using pt d sc by (cases "d = ?d") (auto simp: nth_list_update)
      fix k assume k: "k < length (g ! d)"
      have k1: "k < length (?g1 ! d)"
        using k d sc by (cases "d = ?d") (auto simp: nth_list_update)
      from pt d k1 have eq: "g' ! d ! k =
           (if d = ?d \<and> r + 1 \<le> int k \<and> int k < e then v else ?g1 ! d ! k)" by blast
      show "g' ! d ! k = (if d = ?d \<and> r \<le> int k \<and> int k < e then v else g ! d ! k)"
      proof (cases "d = ?d")
        case False
        then show ?thesis using eq d by (simp add: nth_list_update)
      next
        case dd: True
        show ?thesis
        proof (cases "int k = r")
          case True
          then have "nat r = k" by simp
          then show ?thesis using eq dd d sc k True \<open>r < e\<close> by (simp add: nth_list_update)
        next
          case False
          then have "nat r \<noteq> k" using 1 by linarith
          then show ?thesis using eq dd d sc k False by (auto simp: nth_list_update)
        qed
      qed
    qed
    with w g' show ?thesis by blast
  qed
qed

lemma wellFormed_buildEmptyWeek: "wellFormed buildEmptyWeek"
  by (simp add: wellFormed_def buildEmptyWeek_def)

lemma applyRange_pointwise:
  assumes "wellFormed (grid p)" "0 \<le> day" "day < 7" "0 \<le> startSlot" "startSlot < 288"
  shows "\<exists>p'. applyRange day startSlot len v p = Inr p' \<and> p' = p\<lparr>grid := grid p'\<rparr> \<and>
           wellFormed (grid p') \<and>
           (\<forall>d < 7. \<forall>r < 288. grid p' ! d ! r =
              (if int d = day \<and> startSlot \<le> int r \<and> int r < min 288 (startSlot + len)
               then v else grid p ! d ! r))"
proof -
  let ?g = "grid p"
  have lg: "length ?g = 7" and lc: "\<And>d. d < 7 \<Longrightarrow> length (?g ! d) = 288"
    using assms(1) by (auto simp: wellFormed_def)
  have d: "nat day < length ?g" using assms lg by linarith
  have e: "min 288 (startSlot + len) \<le> int (length (?g ! nat day))"
    using lc [of "nat day"] d lg by simp
  from writeRows_in_range [OF assms(2) d assms(4) e, of v]
  obtain g' where g': "writeRows ?g day startSlot (min 288 (startSlot + len)) v = Inr g'"
      "length g' = length ?g"
    and pt: "\<forall>d < length ?g. length (g' ! d) = length (?g ! d) \<and>
        (\<forall>k < length (?g ! d). g' ! d ! k =
           (if d = nat day \<and> startSlot \<le> int k \<and> int k < min 288 (startSlot + len)
            then v else ?g ! d ! k))"
    by blast
  have ap: "applyRange day startSlot len v p = Inr (p\<lparr>grid := g'\<rparr>)"
    using g' by (simp add: applyRange_def Let_def)
  have wf: "wellFormed g'"
    unfolding wellFormed_def using g' pt lg lc by (auto simp: in_set_conv_nth)
  have "\<forall>d < 7. \<forall>r < 288. g' ! d ! r =
              (if int d = day \<and> startSlot \<le> int r \<and> int r < min 288 (startSlot + len)
               then v else ?g ! d ! r)"
  proof (intro allI impI)
    fix d r :: nat assume dr: "d < 7" "r < 288"
    have "(d = nat day) = (int d = day)" using assms by auto
    then show "g' ! d ! r =
              (if int d = day \<and> startSlot \<le> int r \<and> int r < min 288 (startSlot + len)
               then v else ?g ! d ! r)"
      using pt dr lg lc by auto
  qed
  with ap wf show ?thesis by simp
qed

text \<open>
  C5. For a grid of 7 columns of 288 cells, a day index in \<open>[0, 7)\<close>, a start slot in
  \<open>[0, 288)\<close>, any length and any value (an activity id or free), \<open>applyRange\<close>
  returns a plan that differs from the old one in its grid only; the new grid has the
  same shape, every slot of that day in \<open>[startSlot, min(288, startSlot + len))\<close> reads
  the written value, and every other cell of the grid reads what it read before.
\<close>

theorem applyRange_writes_exactly_range:
  assumes "wellFormed (grid p)" "0 \<le> day" "day < 7" "0 \<le> startSlot" "startSlot < 288"
  shows "\<exists>p'. applyRange day startSlot len v p = Inr p' \<and> p' = p\<lparr>grid := grid p'\<rparr> \<and>
           wellFormed (grid p') \<and>
           (\<forall>d < 7. \<forall>r < 288. grid p' ! d ! r =
              (if int d = day \<and> startSlot \<le> int r \<and> int r < min 288 (startSlot + len)
               then v else grid p ! d ! r))"
  using assms by (rule applyRange_pointwise)

theorem applyRange_writes_exactly_range_witness:
  "wellFormed (grid planABCD) \<and>
   (\<exists>p'. applyRange 2 280 12 (Some ''A'') planABCD = Inr p' \<and>
      grid p' ! 2 ! 280 = Some ''A'' \<and> grid p' ! 2 ! 287 = Some ''A'' \<and>
      grid p' ! 2 ! 279 = grid planABCD ! 2 ! 279 \<and>
      grid p' ! 3 ! 280 = grid planABCD ! 3 ! 280)"
proof -
  have wf: "wellFormed (grid planABCD)"
    by (simp add: planABCD_def wellFormed_buildEmptyWeek)
  from applyRange_writes_exactly_range [OF wf, of 2 280 12 "Some ''A''"]
  obtain p' where ap: "applyRange 2 280 12 (Some ''A'') planABCD = Inr p'"
    and pt: "\<forall>d < 7. \<forall>r < 288. grid p' ! d ! r =
              (if int d = 2 \<and> 280 \<le> int r \<and> int r < min 288 (280 + 12)
               then Some ''A'' else grid planABCD ! d ! r)"
    by auto
  have "grid p' ! 2 ! 280 = Some ''A''" using pt [rule_format, of 2 280] by simp
  moreover have "grid p' ! 2 ! 287 = Some ''A''" using pt [rule_format, of 2 287] by simp
  moreover have "grid p' ! 2 ! 279 = grid planABCD ! 2 ! 279"
    using pt [rule_format, of 2 279] by simp
  moreover have "grid p' ! 3 ! 280 = grid planABCD ! 3 ! 280"
    using pt [rule_format, of 3 280] by simp
  ultimately show ?thesis using wf ap by blast
qed

section \<open>Deleting an activity\<close>

lemma clearGridForActivity_cells:
  "col \<in> set (clearGridForActivity g x) \<Longrightarrow> c \<in> set col \<Longrightarrow>
     c \<noteq> Some x \<and> (c = None \<or> (\<exists>col0 \<in> set g. c \<in> set col0))"
  by (auto simp: clearGridForActivity_def split: if_splits)

text \<open>
  C6. After \<open>deleteActivity X\<close>: no cell of the grid equals \<open>X\<close>; no activity of the
  registry has the id \<open>X\<close>; the selection, when it was \<open>X\<close>, is the id of an activity
  that is still in the registry or null, and is otherwise what it was; the grid keeps
  its shape; and when no cell named an id missing from the registry before, none does
  afterwards. The three fields change in one patch of the active plan, which
  \<open>updateActivePlan\<close> installs as the active plan in one step.
\<close>

theorem deleteActivity_cascade:
  "(\<forall>col \<in> set (grid (deleteActivity X p)). Some X \<notin> set col) \<and>
   X \<notin> activity_id ` set (activities (deleteActivity X p)) \<and>
   set (activities (deleteActivity X p)) \<subseteq> set (activities p) \<and>
   (if selectedActivityId p = Some X
    then selectedActivityId (deleteActivity X p) = None \<or>
         (\<exists>a \<in> set (activities (deleteActivity X p)).
            selectedActivityId (deleteActivity X p) = Some (activity_id a))
    else selectedActivityId (deleteActivity X p) = selectedActivityId p) \<and>
   (wellFormed (grid p) \<longrightarrow> wellFormed (grid (deleteActivity X p))) \<and>
   (noDangling p \<longrightarrow> noDangling (deleteActivity X p)) \<and>
   activePlan (updateActivePlan (deleteActivity X) plans activePlanId) activePlanId =
     map_option (deleteActivity X) (activePlan plans activePlanId)"
proof -
  let ?q = "deleteActivity X p"
  have g: "grid ?q = clearGridForActivity (grid p) X"
    and a: "activities ?q = filter (\<lambda>a. activity_id a \<noteq> X) (activities p)"
    by (simp_all add: deleteActivity_def Let_def)
  have c1: "\<forall>col \<in> set (grid ?q). Some X \<notin> set col"
    unfolding g using clearGridForActivity_cells by blast
  have c2: "X \<notin> activity_id ` set (activities ?q)" unfolding a by auto
  have c3: "set (activities ?q) \<subseteq> set (activities p)" unfolding a by auto
  have c4: "if selectedActivityId p = Some X
    then selectedActivityId ?q = None \<or>
         (\<exists>a \<in> set (activities ?q). selectedActivityId ?q = Some (activity_id a))
    else selectedActivityId ?q = selectedActivityId p"
  proof (cases "selectedActivityId p = Some X")
    case False
    then show ?thesis by (simp add: deleteActivity_def Let_def)
  next
    case True
    show ?thesis
    proof (cases "filter (\<lambda>a. activity_id a \<noteq> X) (activities p)")
      case Nil
      with True show ?thesis by (simp add: deleteActivity_def Let_def)
    next
      case (Cons b bs)
      then have "selectedActivityId ?q = Some (activity_id b)" "b \<in> set (activities ?q)"
        using True by (simp_all add: deleteActivity_def Let_def)
      with True show ?thesis by auto
    qed
  qed
  have c5: "wellFormed (grid p) \<longrightarrow> wellFormed (grid ?q)"
    unfolding g by (auto simp: wellFormed_def clearGridForActivity_def)
  have c6: "noDangling p \<longrightarrow> noDangling ?q"
  proof
    assume nd: "noDangling p"
    show "noDangling ?q"
      unfolding noDangling_def
    proof (intro ballI)
      fix col c assume col: "col \<in> set (grid ?q)" and c: "c \<in> set col"
      from clearGridForActivity_cells [OF col [unfolded g] c]
      have ne: "c \<noteq> Some X" and src: "c = None \<or> (\<exists>col0 \<in> set (grid p). c \<in> set col0)"
        by auto
      show "case c of None \<Rightarrow> True | Some i \<Rightarrow> i \<in> activity_id ` set (activities ?q)"
      proof (cases c)
        case None
        then show ?thesis by simp
      next
        case (Some i)
        with src obtain col0 where "col0 \<in> set (grid p)" "Some i \<in> set col0" by auto
        with nd have "i \<in> activity_id ` set (activities p)"
          by (auto simp: noDangling_def split: option.splits)
        moreover have "i \<noteq> X" using ne Some by simp
        ultimately show ?thesis using Some unfolding a by auto
      qed
    qed
  qed
  have c7: "activePlan (updateActivePlan (deleteActivity X) plans activePlanId) activePlanId =
     map_option (deleteActivity X) (activePlan plans activePlanId)"
    by (rule activePlan_updateActivePlan) (simp add: deleteActivity_def Let_def)
  from c1 c2 c3 c4 c5 c6 c7 show ?thesis by blast
qed

theorem deleteActivity_cascade_witness:
  "selectedActivityId planMondayA = Some ''A'' \<and> wellFormed (grid planMondayA) \<and>
   noDangling planMondayA \<and>
   selectedActivityId (deleteActivity ''A'' planMondayA) = Some ''B'' \<and>
   map activity_id (activities (deleteActivity ''A'' planMondayA)) = [''B'', ''C'', ''D''] \<and>
   wellFormed (grid (deleteActivity ''A'' planMondayA)) \<and>
   noDangling (deleteActivity ''A'' planMondayA) \<and>
   activePlan (updateActivePlan (deleteActivity ''A'') [planMondayA] None) None =
     Some (deleteActivity ''A'' planMondayA)"
proof -
  have sel: "selectedActivityId planMondayA = Some ''A''"
    by (simp add: planMondayA_def planABCD_def)
  have wf: "wellFormed (grid planMondayA)"
    by (simp add: planMondayA_def wellFormed_def)
  have nd: "noDangling planMondayA"
    by (simp add: planMondayA_def planABCD_def noDangling_def act_def)
  have ap: "activePlan [planMondayA] None = Some planMondayA"
    by (simp add: activePlan_def)
  have s: "selectedActivityId (deleteActivity ''A'' planMondayA) = Some ''B''"
    by (simp add: deleteActivity_def planMondayA_def planABCD_def act_def Let_def)
  have a: "map activity_id (activities (deleteActivity ''A'' planMondayA)) = [''B'', ''C'', ''D'']"
    by (simp add: deleteActivity_def planMondayA_def planABCD_def act_def Let_def)
  from deleteActivity_cascade [of "''A''" planMondayA "[planMondayA]" None] sel wf nd ap s a
  show ?thesis by simp
qed

section \<open>What the counting loop computes\<close>

lemma set_firstSeen [simp]: "set (firstSeen xs) = set xs"
  by (induction xs) auto

lemma distinct_firstSeen [simp]: "distinct (firstSeen xs)"
  by (induction xs) auto

lemma firstSeen_snoc:
  "firstSeen (xs @ [x]) = (if x \<in> set xs then firstSeen xs else firstSeen xs @ [x])"
  by (induction xs) auto

lemma mapSet_new: "k \<notin> fst ` set m \<Longrightarrow> mapSet m k v = m @ [(k, v)]"
  by (induction m) auto

lemma mapSet_present:
  "i \<in> set ks \<Longrightarrow> distinct ks \<Longrightarrow>
     mapSet (map (\<lambda>k. (k, f k)) ks) i v = map (\<lambda>k. (k, if k = i then v else f k)) ks"
proof (induction ks)
  case Nil
  then show ?case by simp
next
  case (Cons a ks)
  show ?case
  proof (cases "a = i")
    case True
    then have "i \<notin> set ks" using Cons.prems by simp
    then have "map (\<lambda>k. (k, if k = i then v else f k)) ks = map (\<lambda>k. (k, f k)) ks"
      by (intro map_cong) auto
    with True show ?thesis by simp
  next
    case False
    with Cons show ?thesis by simp
  qed
qed

lemma activityIds_snoc:
  "activityIds (cs @ [c]) =
     activityIds cs @ (case c of None \<Rightarrow> [] | Some i \<Rightarrow> if i = [] then [] else [i])"
  by (simp add: activityIds_def)

lemma set_activityIds: "set (activityIds cs) = {i. i \<noteq> [] \<and> Some i \<in> set cs}"
  by (auto simp: activityIds_def split: option.splits if_splits)

lemma count_list_snoc: "count_list (xs @ [x]) y = count_list xs y + (if x = y then 1 else 0)"
  by (induction xs) auto

lemma count_list_zero: "x \<notin> set xs \<Longrightarrow> count_list xs x = 0"
  by (induction xs) auto

lemma getOr0_counted:
  "getOr0 (map (\<lambda>k. (k, count_list cs (Some k))) ks) i =
     (if i \<in> set ks then count_list cs (Some i) else 0)"
  by (induction ks) (auto simp: getOr0_def)

lemma fold_countCell:
  "fold countCell cs ([], 0) =
     (map (\<lambda>i. (i, count_list cs (Some i))) (firstSeen (activityIds cs)),
      length (filter falsy cs))"
proof (induction cs rule: rev_induct)
  case Nil
  then show ?case by (simp add: activityIds_def)
next
  case (snoc c cs)
  let ?ks = "firstSeen (activityIds cs)"
  let ?m = "map (\<lambda>i. (i, count_list cs (Some i))) ?ks"
  have unroll: "fold countCell (cs @ [c]) ([], 0) = countCell c (?m, length (filter falsy cs))"
    using snoc by simp
  show ?case
  proof (cases "falsy c")
    case True
    then have ids: "activityIds (cs @ [c]) = activityIds cs"
      by (auto simp: activityIds_snoc falsy_def split: option.splits)
    have "map (\<lambda>i. (i, count_list (cs @ [c]) (Some i))) ?ks = ?m"
      using True by (intro map_cong) (auto simp: count_list_snoc set_activityIds falsy_def)
    moreover have "fold countCell (cs @ [c]) ([], 0) = (?m, length (filter falsy cs) + 1)"
      unfolding unroll using True by (cases c) (simp_all add: countCell_def)
    ultimately show ?thesis using True ids by simp
  next
    case False
    then obtain i where c: "c = Some i" and i: "i \<noteq> []"
      by (auto simp: falsy_def split: option.splits)
    have g0: "getOr0 ?m i = count_list cs (Some i)"
      using i by (simp add: getOr0_counted set_activityIds count_list_zero)
    have step: "fold countCell (cs @ [c]) ([], 0) =
        (mapSet ?m i (count_list cs (Some i) + 1), length (filter falsy cs))"
      unfolding unroll using False c g0 by (simp add: countCell_def)
    have ids: "activityIds (cs @ [c]) = activityIds cs @ [i]"
      using c i by (simp add: activityIds_snoc)
    have "mapSet ?m i (count_list cs (Some i) + 1) =
            map (\<lambda>k. (k, count_list (cs @ [c]) (Some k))) (firstSeen (activityIds (cs @ [c])))"
    proof (cases "i \<in> set (activityIds cs)")
      case False
      then have "i \<notin> fst ` set ?m" by (auto simp: image_iff)
      then have "mapSet ?m i (count_list cs (Some i) + 1) = ?m @ [(i, count_list cs (Some i) + 1)]"
        by (rule mapSet_new)
      moreover have "map (\<lambda>k. (k, count_list (cs @ [c]) (Some k))) ?ks = ?m"
        using False c by (intro map_cong) (auto simp: count_list_snoc)
      ultimately show ?thesis using False ids c by (simp add: firstSeen_snoc count_list_snoc)
    next
      case True
      then have "mapSet ?m i (count_list cs (Some i) + 1) =
          map (\<lambda>k. (k, if k = i then count_list cs (Some i) + 1 else count_list cs (Some k))) ?ks"
        by (intro mapSet_present) auto
      moreover have "map (\<lambda>k. (k, count_list (cs @ [c]) (Some k))) ?ks =
          map (\<lambda>k. (k, if k = i then count_list cs (Some i) + 1 else count_list cs (Some k))) ?ks"
        using c by (intro map_cong) (auto simp: count_list_snoc)
      ultimately show ?thesis using True ids by (simp add: firstSeen_snoc)
    qed
    then show ?thesis using step False by simp
  qed
qed

section \<open>The allocation summary adds up\<close>

lemma fold_concat_fold: "fold f (concat xss) s = fold (\<lambda>xs. fold f xs) xss s"
  by (induction xss arbitrary: s) auto

lemma scanGrid_gridCells: "scanGrid g = fold countCell (gridCells g) ([], 0)"
  by (simp add: scanGrid_def gridCells_def fold_concat_fold fold_map comp_def)

lemma length_gridCells: "length (gridCells g) = 2016"
  by (simp add: gridCells_def length_concat comp_def sum_list_triv)

lemma set_gridCells: "set (gridCells g) = {cellAt g d r | d r. d < 7 \<and> r < 288}"
  by (fastforce simp: gridCells_def)

lemma fold_mapSet_registry:
  "fold (\<lambda>a m. mapSet m (activity_id a) (f (activity_id a))) acts [] =
     map (\<lambda>i. (i, f i)) (firstSeen (map activity_id acts))"
proof (induction acts rule: rev_induct)
  case Nil
  then show ?case by simp
next
  case (snoc a acts)
  let ?ks = "firstSeen (map activity_id acts)"
  let ?i = "activity_id a"
  show ?case
  proof (cases "?i \<in> set (map activity_id acts)")
    case True
    then have "mapSet (map (\<lambda>i. (i, f i)) ?ks) ?i (f ?i) =
        map (\<lambda>k. (k, if k = ?i then f ?i else f k)) ?ks"
      by (intro mapSet_present) auto
    also have "\<dots> = map (\<lambda>i. (i, f i)) ?ks" by (intro map_cong) auto
    finally show ?thesis using True snoc by (simp add: firstSeen_snoc)
  next
    case False
    then have "?i \<notin> fst ` set (map (\<lambda>i. (i, f i)) ?ks)" by (auto simp: image_iff)
    then have "mapSet (map (\<lambda>i. (i, f i)) ?ks) ?i (f ?i) = map (\<lambda>i. (i, f i)) ?ks @ [(?i, f ?i)]"
      by (rule mapSet_new)
    then show ?thesis using False snoc by (simp add: firstSeen_snoc)
  qed
qed

lemma getOr0_scan:
  "getOr0 (fst (fold countCell cs ([], 0))) i = cellCount cs i"
  by (simp add: fold_countCell getOr0_counted set_activityIds cellCount_def count_list_zero)

lemma allocationSummary_eq:
  "allocationSummary p =
     \<lparr>minutesById = map (\<lambda>i. (i, cellCount (gridCells (grid p)) i * 5))
                       (firstSeen (map activity_id (activities p))),
      freeMinutes = length (filter falsy (gridCells (grid p))) * 5,
      totalMinutes = 10080\<rparr>"
proof -
  obtain counts freeCells where sc: "scanGrid (grid p) = (counts, freeCells)"
    by (cases "scanGrid (grid p)")
  then have fc: "freeCells = length (filter falsy (gridCells (grid p)))"
    and g: "\<And>i. getOr0 counts i = cellCount (gridCells (grid p)) i"
    using getOr0_scan [of "gridCells (grid p)"]
    by (simp_all add: scanGrid_gridCells fold_countCell)
  show ?thesis
    unfolding allocationSummary_def sc
    using fold_mapSet_registry [of "\<lambda>i. getOr0 counts i * 5" "activities p"]
    by (simp add: fc g)
qed

lemma sum_cellCount:
  assumes "finite S" "\<forall>c \<in> set cs. \<not> falsy c \<longrightarrow> c \<in> Some ` S"
  shows "(\<Sum>i \<in> S. cellCount cs i) = length (filter (\<lambda>c. \<not> falsy c) cs)"
  using assms(2)
proof (induction cs)
  case Nil
  then show ?case by (simp add: cellCount_def sum.neutral)
next
  case (Cons c cs)
  have split: "\<And>i. cellCount (c # cs) i = cellCount cs i + (if c = Some i \<and> i \<noteq> [] then 1 else 0)"
    by (auto simp: cellCount_def)
  have "(\<Sum>i \<in> S. if c = Some i \<and> i \<noteq> [] then 1 else 0) = (if falsy c then 0 else (1::nat))"
  proof (cases "falsy c")
    case True
    then have "\<And>i. (if c = Some i \<and> i \<noteq> [] then 1 else 0) = (0::nat)"
      by (auto simp: falsy_def)
    with True show ?thesis by simp
  next
    case False
    with Cons.prems obtain j where j: "j \<in> S" "c = Some j" by auto
    then have "j \<noteq> []" using False by (simp add: falsy_def)
    then have "\<And>i. (if c = Some i \<and> i \<noteq> [] then 1 else 0) = (if i = j then 1 else (0::nat))"
      using j by auto
    then show ?thesis using False j assms(1) by simp
  qed
  moreover have "(\<Sum>i \<in> S. cellCount cs i) = length (filter (\<lambda>c. \<not> falsy c) cs)"
    using Cons by simp
  ultimately show ?case by (simp add: split sum.distrib)
qed

lemma allocation_accounts:
  assumes "\<forall>c \<in> set cs. \<not> falsy c \<longrightarrow> c \<in> Some ` set ks"
  shows "(\<Sum>i \<in> set ks. cellCount cs i * 5) + length (filter falsy cs) * 5 = length cs * 5"
proof -
  have "(\<Sum>i \<in> set ks. cellCount cs i) = length (filter (\<lambda>c. \<not> falsy c) cs)"
    using assms by (intro sum_cellCount) auto
  moreover have "length (filter falsy cs) + length (filter (\<lambda>c. \<not> falsy c) cs) = length cs"
    by (rule sum_length_filter_compl)
  ultimately show ?thesis
    by (simp add: sum_distrib_right [symmetric] add_mult_distrib [symmetric] add.commute)
qed

text \<open>
  C2. When every cell of the 7 by 288 scan that is not free (not \<open>null\<close> and not the
  empty string) names an activity of the registry, the minutes of the entries of
  \<open>minutesById\<close> plus the free minutes are exactly 10080, the constant total; with
  distinct registry ids the same holds for the minutes shown beside the activities,
  summed over the registry.
\<close>

theorem allocationSummary_total:
  assumes "\<forall>d < 7. \<forall>r < 288. \<not> falsy (cellAt (grid p) d r) \<longrightarrow>
             cellAt (grid p) d r \<in> Some ` activity_id ` set (activities p)"
  shows "sum_list (map snd (minutesById (allocationSummary p))) +
           freeMinutes (allocationSummary p) = 10080 \<and>
         totalMinutes (allocationSummary p) = 10080 \<and>
         (distinct (map activity_id (activities p)) \<longrightarrow>
            (\<Sum>a \<leftarrow> activities p. minutesOf (allocationSummary p) a) +
              freeMinutes (allocationSummary p) = 10080)"
proof -
  let ?cs = "gridCells (grid p)"
  let ?ids = "map activity_id (activities p)"
  let ?ks = "firstSeen ?ids"
  let ?f = "\<lambda>i. cellCount ?cs i * 5"
  have reg: "\<forall>c \<in> set ?cs. \<not> falsy c \<longrightarrow> c \<in> Some ` set ?ks"
    using assms by (auto simp: set_gridCells)
  have acc: "(\<Sum>i \<in> set ?ks. ?f i) + length (filter falsy ?cs) * 5 = 10080"
    using allocation_accounts [OF reg] by (simp add: length_gridCells)
  have "sum_list (map snd (map (\<lambda>i. (i, ?f i)) ?ks)) = sum_list (map ?f ?ks)"
    by (simp add: comp_def)
  also have "\<dots> = (\<Sum>i \<in> set ?ks. ?f i)"
    by (rule sum_list_distinct_conv_sum_set) simp
  finally have c1: "sum_list (map snd (minutesById (allocationSummary p))) +
           freeMinutes (allocationSummary p) = 10080"
    using acc by (simp add: allocationSummary_eq)
  have c3: "(\<Sum>a \<leftarrow> activities p. minutesOf (allocationSummary p) a) +
              freeMinutes (allocationSummary p) = 10080"
    if d: "distinct ?ids"
  proof -
    have m: "\<And>a. a \<in> set (activities p) \<Longrightarrow> minutesOf (allocationSummary p) a = ?f (activity_id a)"
    proof -
      fix a assume "a \<in> set (activities p)"
      then have "activity_id a \<in> set ?ks" by simp
      then have "map_of (map (\<lambda>i. (i, ?f i)) ?ks) (activity_id a) = Some (?f (activity_id a))"
        by (simp add: map_of_map_restrict)
      then show "minutesOf (allocationSummary p) a = ?f (activity_id a)"
        by (simp add: minutesOf_def allocationSummary_eq getOr0_def)
    qed
    have "(\<Sum>a \<leftarrow> activities p. minutesOf (allocationSummary p) a) = sum_list (map ?f ?ids)"
      using m by (simp add: comp_def cong: map_cong)
    also have "\<dots> = (\<Sum>i \<in> set ?ids. ?f i)"
      using d by (rule sum_list_distinct_conv_sum_set)
    finally show ?thesis using acc by (simp add: allocationSummary_eq)
  qed
  show ?thesis using c1 c3 by (simp add: allocationSummary_eq)
qed

lemma gridCells_wellFormed: "wellFormed g \<Longrightarrow> gridCells g = concat g"
proof -
  assume wf: "wellFormed g"
  then have lg: "length g = 7" and lc: "\<And>d. d < 7 \<Longrightarrow> length (g ! d) = 288"
    by (auto simp: wellFormed_def)
  have "\<And>d. d < 7 \<Longrightarrow> map (\<lambda>row. cellAt g d row) [0..<288] = g ! d"
  proof -
    fix d :: nat assume d: "d < 7"
    have "map (\<lambda>row. cellAt g d row) [0..<288] = map (\<lambda>row. g ! d ! row) [0..<length (g ! d)]"
      using d lg lc [OF d] by (auto simp: cellAt_def)
    then show "map (\<lambda>row. cellAt g d row) [0..<288] = g ! d" by (simp add: map_nth)
  qed
  then have "map (\<lambda>day. map (\<lambda>row. cellAt g day row) [0..<288]) [0..<7] = map (\<lambda>day. g ! day) [0..<length g]"
    using lg by (auto simp del: upt_Suc)
  then show ?thesis by (simp add: gridCells_def map_nth del: upt_Suc)
qed

text \<open>
  Without that condition the sum falls short: in \<open>planStray\<close> one cell names an id
  that no activity has, and the per-activity minutes and the free minutes add up to
  10075.
\<close>

theorem allocationSummary_total_counterexample:
  "wellFormed (grid planStray) \<and>
   sum_list (map snd (minutesById (allocationSummary planStray))) +
     freeMinutes (allocationSummary planStray) = 10075 \<and>
   totalMinutes (allocationSummary planStray) = 10080"
proof -
  have wf: "wellFormed (grid planStray)" by (simp add: planStray_def wellFormed_def)
  have gc: "gridCells (grid planStray) =
      Some ''zzz'' # replicate 287 None @ concat (replicate 6 (replicate 288 None))"
    using gridCells_wellFormed [OF wf] by (simp add: planStray_def)
  have nin: "\<And>i. i \<noteq> ''zzz'' \<Longrightarrow> cellCount (gridCells (grid planStray)) i = 0"
    unfolding gc cellCount_def by (auto intro!: count_list_zero)
  have fr: "length (filter falsy (gridCells (grid planStray))) = 2015"
    unfolding gc by (simp add: falsy_def length_concat sum_list_replicate filter_concat)
  have ids: "map activity_id (activities planStray) = [''A'', ''B'', ''C'', ''D'']"
    by (simp add: planStray_def planABCD_def act_def)
  show ?thesis using wf by (simp add: allocationSummary_eq fr nin ids)
qed

theorem allocationSummary_total_witness:
  "sum_list (map snd (minutesById (allocationSummary planMondayA))) +
           freeMinutes (allocationSummary planMondayA) = 10080 \<and>
   distinct (map activity_id (activities planMondayA)) \<and>
   (\<Sum>a \<leftarrow> activities planMondayA. minutesOf (allocationSummary planMondayA) a) +
              freeMinutes (allocationSummary planMondayA) = 10080"
proof -
  have wf: "wellFormed (grid planMondayA)" by (simp add: planMondayA_def wellFormed_def)
  have cells: "\<forall>d < 7. \<forall>r < 288. \<not> falsy (cellAt (grid planMondayA) d r) \<longrightarrow>
             cellAt (grid planMondayA) d r \<in> Some ` activity_id ` set (activities planMondayA)"
  proof (intro allI impI)
    fix d r :: nat assume "d < 7" "r < 288" and nf: "\<not> falsy (cellAt (grid planMondayA) d r)"
    then have "cellAt (grid planMondayA) d r = Some ''A''"
      by (cases d) (auto simp: cellAt_def planMondayA_def falsy_def Let_def split: if_splits)
    then show "cellAt (grid planMondayA) d r \<in> Some ` activity_id ` set (activities planMondayA)"
      by (simp add: planMondayA_def planABCD_def act_def)
  qed
  have d: "distinct (map activity_id (activities planMondayA))"
    by (simp add: planMondayA_def planABCD_def act_def)
  from allocationSummary_total [OF cells] d show ?thesis by simp
qed

section \<open>Stripes of a coarse row\<close>

lemma stripeSegments_eq:
  "stripeSegments acts ids =
     sortSegments (map (\<lambda>i. segmentOf acts (i, count_list ids (Some i))) (firstSeen (activityIds ids)) @
       (if 0 < length (filter falsy ids) then [freeSegment (length (filter falsy ids))] else []))"
  by (simp add: stripeSegments_def fold_countCell comp_def)

lemma sortSegments_sorted: "sorted_wrt (\<lambda>a b. seg_n b \<le> seg_n a) (sortSegments xs)"
proof -
  have "sorted (map (\<lambda>s. - int (seg_n s)) (sortSegments xs))"
    unfolding sortSegments_def by (rule sorted_sort_key)
  then show ?thesis by (simp add: sorted_map)
qed

lemma sortSegments_stable:
  "filter (\<lambda>s. seg_n s = k) (sortSegments xs) = filter (\<lambda>s. seg_n s = k) xs"
proof -
  have e: "(\<lambda>s. seg_n s = k) = (\<lambda>s. - int (seg_n s) = - int k)" by auto
  show ?thesis unfolding sortSegments_def e by (rule sort_key_stable)
qed

lemma seg_n_segmentOf [simp]: "seg_n (segmentOf acts (i, n)) = n"
  by (simp add: segmentOf_def)

text \<open>
  C3. The segments of a row are ordered by slot count, descending. Among the segments
  of one count \<open>k\<close>, the activity segments stand in the order in which a scan of the
  row from its lowest slot to its highest first meets their ids, and the free segment,
  when the free-slot count is \<open>k\<close> and positive, stands after all of them.
\<close>

theorem stripeSegments_order:
  "sorted_wrt (\<lambda>a b. seg_n b \<le> seg_n a) (stripeSegments acts ids) \<and>
   (\<forall>k. filter (\<lambda>s. seg_n s = k) (stripeSegments acts ids) =
      map (\<lambda>i. segmentOf acts (i, k))
        (filter (\<lambda>i. count_list ids (Some i) = k) (firstSeen (activityIds ids))) @
      (if length (filter falsy ids) = k \<and> 0 < k then [freeSegment k] else []))"
proof (intro conjI allI)
  show "sorted_wrt (\<lambda>a b. seg_n b \<le> seg_n a) (stripeSegments acts ids)"
    unfolding stripeSegments_eq by (rule sortSegments_sorted)
next
  fix k
  let ?ks = "firstSeen (activityIds ids)"
  have "filter (\<lambda>s. seg_n s = k) (map (\<lambda>i. segmentOf acts (i, count_list ids (Some i))) ?ks) =
      map (\<lambda>i. segmentOf acts (i, count_list ids (Some i))) (filter (\<lambda>i. count_list ids (Some i) = k) ?ks)"
    by (simp add: filter_map comp_def)
  also have "\<dots> = map (\<lambda>i. segmentOf acts (i, k)) (filter (\<lambda>i. count_list ids (Some i) = k) ?ks)"
    by (intro map_cong) auto
  finally show "filter (\<lambda>s. seg_n s = k) (stripeSegments acts ids) =
      map (\<lambda>i. segmentOf acts (i, k)) (filter (\<lambda>i. count_list ids (Some i) = k) ?ks) @
      (if length (filter falsy ids) = k \<and> 0 < k then [freeSegment k] else [])"
    unfolding stripeSegments_eq sortSegments_stable by (auto simp: freeSegment_def)
qed

theorem stripeSegments_order_witness:
  "filter (\<lambda>s. seg_n s = 1) (stripeSegments (activities planTie) [None, Some ''A'', Some ''B'']) =
     [segmentOf (activities planTie) (''A'', 1), segmentOf (activities planTie) (''B'', 1),
      freeSegment 1] \<and>
   filter (\<lambda>s. seg_n s = 2) (stripeSegments (activities planTie) [Some ''B'', Some ''A'', Some ''A'', Some ''B'']) =
     [segmentOf (activities planTie) (''B'', 2), segmentOf (activities planTie) (''A'', 2)]"
proof -
  have a: "activityIds [None, Some ''A'', Some ''B''] = [''A'', ''B'']"
    "activityIds [Some ''B'', Some ''A'', Some ''A'', Some ''B''] = [''B'', ''A'', ''A'', ''B'']"
    by (simp_all add: activityIds_def)
  from stripeSegments_order [of "activities planTie" "[None, Some ''A'', Some ''B'']"]
  have "filter (\<lambda>s. seg_n s = 1) (stripeSegments (activities planTie) [None, Some ''A'', Some ''B'']) =
     [segmentOf (activities planTie) (''A'', 1), segmentOf (activities planTie) (''B'', 1),
      freeSegment 1]"
    by (simp add: a falsy_def)
  moreover
  from stripeSegments_order [of "activities planTie" "[Some ''B'', Some ''A'', Some ''A'', Some ''B'']"]
  have "filter (\<lambda>s. seg_n s = 2) (stripeSegments (activities planTie) [Some ''B'', Some ''A'', Some ''A'', Some ''B'']) =
     [segmentOf (activities planTie) (''B'', 2), segmentOf (activities planTie) (''A'', 2)]"
    by (simp add: a falsy_def)
  ultimately show ?thesis by simp
qed

text \<open>
  The free segment does not take part in the first-encountered order: in the row
  free, \<open>A\<close>, \<open>B\<close> of three slots every count is 1 and the free slot comes first, yet
  the free segment comes last.
\<close>

theorem stripeSegments_order_counterexample:
  "rowSlots (grid planTie) 0 0 3 = [None, Some ''A'', Some ''B''] \<and>
   map (\<lambda>s. (seg_key s, seg_n s)) (stripeSegments (activities planTie) (rowSlots (grid planTie) 0 0 3)) =
     [(''A'', 1), (''B'', 1), (''__free__'', 1)] \<and>
   getStripeBackground planTie 3 0 0 =
     Mixed [(''#8B5CF6'', 0, 1), (''#8B5CF6'', 1, 2), (''rgba(255,255,255,0.06)'', 2, 3)]
       [(''A'', 5), (''B'', 5), (''Free'', 5)]"
  by code_simp















section \<open>Paint strokes\<close>

lemma paintCells_pointwise:
  "wellFormed (grid p) \<Longrightarrow> \<forall>c \<in> set cs. validCell c \<Longrightarrow>
   \<exists>p'. paintCells viewStep v cs p = Inr p' \<and> p' = p\<lparr>grid := grid p'\<rparr> \<and> wellFormed (grid p') \<and>
     (\<forall>d < 7. \<forall>r < 288. grid p' ! d ! r = (if covers viewStep cs d r then v else grid p ! d ! r))"
proof (induction cs arbitrary: p)
  case Nil
  then show ?case by (simp add: covers_def)
next
  case (Cons c cs)
  obtain d0 r0 where c: "c = (d0, r0)" by (cases c)
  have vc: "0 \<le> d0" "d0 < 7" "0 \<le> r0" "r0 < 288"
    using Cons.prems(2) c by (auto simp: validCell_def)
  from applyRange_pointwise [OF Cons.prems(1) vc, of viewStep v]
  obtain p1 where p1: "applyRange d0 r0 viewStep v p = Inr p1" "p1 = p\<lparr>grid := grid p1\<rparr>"
      "wellFormed (grid p1)"
    and pt1: "\<forall>d < 7. \<forall>r < 288. grid p1 ! d ! r =
              (if int d = d0 \<and> r0 \<le> int r \<and> int r < min 288 (r0 + viewStep)
               then v else grid p ! d ! r)"
    by blast
  have "\<forall>c \<in> set cs. validCell c" using Cons.prems(2) by simp
  from Cons.IH [OF p1(3) this]
  obtain p2 where p2: "paintCells viewStep v cs p1 = Inr p2" "p2 = p1\<lparr>grid := grid p2\<rparr>"
      "wellFormed (grid p2)"
    and pt2: "\<forall>d < 7. \<forall>r < 288. grid p2 ! d ! r =
                (if covers viewStep cs d r then v else grid p1 ! d ! r)"
    by blast
  have run: "paintCells viewStep v (c # cs) p = Inr p2" using c p1 p2 by simp
  have rec: "p2 = p\<lparr>grid := grid p2\<rparr>" using p1(2) p2(2) by (metis Plan.surjective Plan.update_convs(4))
  have "\<forall>d < 7. \<forall>r < 288. grid p2 ! d ! r =
          (if covers viewStep (c # cs) d r then v else grid p ! d ! r)"
    using pt1 pt2 c by (auto simp: covers_def)
  with run rec p2(3) show ?case by blast
qed

lemma wellFormed_ext:
  assumes "wellFormed g" "wellFormed g'" "\<forall>d < 7. \<forall>r < 288. g ! d ! r = g' ! d ! r"
  shows "g = g'"
proof (rule nth_equalityI)
  show "length g = length g'" using assms by (simp add: wellFormed_def)
next
  fix d assume d: "d < length g"
  then have d7: "d < 7" using assms(1) by (simp add: wellFormed_def)
  have l: "length (g ! d) = 288" "length (g' ! d) = 288"
    using assms d7 by (auto simp: wellFormed_def)
  show "g ! d = g' ! d"
    using l assms(3) d7 by (intro nth_equalityI) auto
qed

lemma paintCells_set:
  assumes wf: "wellFormed (grid p)" and v: "\<forall>c \<in> set cs. validCell c" and s: "set cs' = set cs"
  shows "paintCells viewStep v cs' p = paintCells viewStep v cs p"
proof -
  have v': "\<forall>c \<in> set cs'. validCell c" using v s by simp
  from paintCells_pointwise [OF wf v, of viewStep v]
  obtain p1 where p1: "paintCells viewStep v cs p = Inr p1" "p1 = p\<lparr>grid := grid p1\<rparr>"
      "wellFormed (grid p1)"
    and pt1: "\<forall>d < 7. \<forall>r < 288. grid p1 ! d ! r = (if covers viewStep cs d r then v else grid p ! d ! r)"
    by blast
  from paintCells_pointwise [OF wf v', of viewStep v]
  obtain p2 where p2: "paintCells viewStep v cs' p = Inr p2" "p2 = p\<lparr>grid := grid p2\<rparr>"
      "wellFormed (grid p2)"
    and pt2: "\<forall>d < 7. \<forall>r < 288. grid p2 ! d ! r = (if covers viewStep cs' d r then v else grid p ! d ! r)"
    by blast
  have "covers viewStep cs' = covers viewStep cs" using s by (simp add: covers_def fun_eq_iff)
  then have "grid p1 = grid p2"
    using pt1 pt2 p1(3) p2(3) by (intro wellFormed_ext) auto
  then have "p1 = p2" using p1(2) p2(2) by metis
  then show ?thesis using p1 p2 by simp
qed

lemma remdups_adj_head: "remdups_adj (x # xs) = x # tl (remdups_adj (x # xs))"
  by (cases xs) (auto simp: remdups_adj_Cons split: list.splits)

lemma remdups_adj_repeat: "remdups_adj (x # x # xs) = remdups_adj (x # xs)"
  by simp

lemma paintAt_valid:
  assumes "wellFormed (grid (ps_plan st))" "validCell (d, r)"
  shows "\<exists>p'. applyRange d r viewStep (strokeValue mode (ps_plan st)) (ps_plan st) = Inr p' \<and>
           p' = (ps_plan st)\<lparr>grid := grid p'\<rparr> \<and> wellFormed (grid p') \<and>
           paintAt viewStep d r mode st =
             Inr (st\<lparr>ps_plan := p',
                     applied := applied st @ [(d, r, viewStep, strokeValue mode (ps_plan st))]\<rparr>)"
proof -
  have vc: "0 \<le> d" "d < 7" "0 \<le> r" "r < 288" using assms(2) by (auto simp: validCell_def)
  from applyRange_pointwise [OF assms(1) vc, of viewStep "strokeValue mode (ps_plan st)"]
  obtain p' where "applyRange d r viewStep (strokeValue mode (ps_plan st)) (ps_plan st) = Inr p'"
    "p' = (ps_plan st)\<lparr>grid := grid p'\<rparr>" "wellFormed (grid p')"
    by blast
  then show ?thesis by (auto simp: paintAt_def strokeValue_def Let_def)
qed

lemma continueStroke_run:
  "isMouseDown st \<Longrightarrow> lastPaintDay st = Some (fst c) \<Longrightarrow> lastPaintRow st = Some (snd c) \<Longrightarrow>
   wellFormed (grid (ps_plan st)) \<Longrightarrow> \<forall>x \<in> set cs. validCell x \<Longrightarrow>
   \<exists>st'. continueStroke viewStep cs st = Inr st' \<and>
     applied st' = applied st @
       map (\<lambda>x. (fst x, snd x, viewStep, strokeValue (dragPaintMode st) (ps_plan st)))
         (tl (remdups_adj (c # cs))) \<and>
     paintCells viewStep (strokeValue (dragPaintMode st) (ps_plan st)) (tl (remdups_adj (c # cs)))
       (ps_plan st) = Inr (ps_plan st') \<and>
     isMouseDown st' \<and> dragPaintMode st' = dragPaintMode st"
proof (induction cs arbitrary: st c)
  case Nil
  then show ?case by simp
next
  case (Cons x cs)
  obtain d r where x: "x = (d, r)" by (cases x)
  have vcs: "\<forall>y \<in> set cs. validCell y" and vx: "validCell (d, r)"
    using Cons.prems(5) x by auto
  show ?case
  proof (cases "x = c")
    case True
    then have same: "onCellPointerEnter viewStep d r st = Inr st"
      using Cons.prems x by (auto simp: onCellPointerEnter_def)
    have step: "continueStroke viewStep (x # cs) st = continueStroke viewStep cs st"
      using same x by simp
    have rd: "remdups_adj (c # x # cs) = remdups_adj (c # cs)" using True by simp
    from Cons.IH [OF Cons.prems(1-4) vcs]
    show ?thesis unfolding step rd .
  next
    case False
    let ?v = "strokeValue (dragPaintMode st) (ps_plan st)"
    let ?st0 = "st\<lparr>lastPaintDay := Some d, lastPaintRow := Some r\<rparr>"
    have wf0: "wellFormed (grid (ps_plan ?st0))" using Cons.prems(4) by simp
    from paintAt_valid [OF wf0 vx, of viewStep "dragPaintMode st"]
    obtain p1 where p1: "applyRange d r viewStep ?v (ps_plan st) = Inr p1"
        "p1 = (ps_plan st)\<lparr>grid := grid p1\<rparr>" "wellFormed (grid p1)"
      and pa: "paintAt viewStep d r (dragPaintMode st) ?st0 =
             Inr (?st0\<lparr>ps_plan := p1, applied := applied st @ [(d, r, viewStep, ?v)]\<rparr>)"
      by auto
    let ?st1 = "?st0\<lparr>ps_plan := p1, applied := applied st @ [(d, r, viewStep, ?v)]\<rparr>"
    have ne: "\<not> (lastPaintDay st = Some d \<and> lastPaintRow st = Some r)"
      using False Cons.prems(2,3) x by (cases c) auto
    have enter: "onCellPointerEnter viewStep d r st = Inr ?st1"
      unfolding onCellPointerEnter_def using Cons.prems(1) ne pa by (simp only: if_False if_True not_True_eq_False)
    have sel: "selectedActivityId p1 = selectedActivityId (ps_plan st)"
      using p1(2) by (metis Plan.select_convs(5) Plan.surjective Plan.update_convs(4))
    have v1: "strokeValue (dragPaintMode ?st1) (ps_plan ?st1) = ?v"
      using sel by (simp add: strokeValue_def)
    have pre: "isMouseDown ?st1" "lastPaintDay ?st1 = Some (fst x)" "lastPaintRow ?st1 = Some (snd x)"
      "wellFormed (grid (ps_plan ?st1))"
      using Cons.prems(1) x p1(3) by simp_all
    from Cons.IH [OF pre vcs]
    obtain st' where run: "continueStroke viewStep cs ?st1 = Inr st'"
      and ap: "applied st' = applied ?st1 @
          map (\<lambda>y. (fst y, snd y, viewStep, ?v)) (tl (remdups_adj (x # cs)))"
      and pc: "paintCells viewStep ?v (tl (remdups_adj (x # cs))) p1 = Inr (ps_plan st')"
      and keep: "isMouseDown st'" "dragPaintMode st' = dragPaintMode st"
      unfolding v1 by auto
    obtain ws where ws: "remdups_adj (x # cs) = x # ws"
      using remdups_adj_head [of x cs] by blast
    have tl1: "tl (remdups_adj (c # x # cs)) = x # ws" using False ws by simp
    have tl2: "tl (remdups_adj (x # cs)) = ws" using ws by simp
    have "continueStroke viewStep (x # cs) st = Inr st'" using enter run x by simp
    moreover have "applied st' = applied st @
        map (\<lambda>y. (fst y, snd y, viewStep, ?v)) (tl (remdups_adj (c # x # cs)))"
      unfolding tl1 using ap [unfolded tl2] x by simp
    moreover have "paintCells viewStep ?v (tl (remdups_adj (c # x # cs))) (ps_plan st) = Inr (ps_plan st')"
      unfolding tl1 using p1(1) pc [unfolded tl2] x by simp
    ultimately show ?thesis using keep by blast
  qed
qed

lemma stroke_run:
  assumes wf: "wellFormed (grid (ps_plan st))" and v0: "validCell c0"
    and vs: "\<forall>c \<in> set cs. validCell c"
    and mode: "mode = (if button = 2 \<or> buttons AND 2 = 2 then Erase else tool (ps_plan st))"
  shows "\<exists>st'. stroke viewStep button buttons c0 cs st = Inr st' \<and>
     applied st' = applied st @
       map (\<lambda>x. (fst x, snd x, viewStep, strokeValue mode (ps_plan st))) (remdups_adj (c0 # cs)) \<and>
     paintCells viewStep (strokeValue mode (ps_plan st)) (firstSeen (c0 # cs)) (ps_plan st) =
       Inr (ps_plan st') \<and>
     \<not> isMouseDown st' \<and> lastPaintDay st' = None \<and> lastPaintRow st' = None"
proof -
  let ?v = "strokeValue mode (ps_plan st)"
  obtain d0 r0 where c0: "c0 = (d0, r0)" by (cases c0)
  let ?st0 = "st\<lparr>isMouseDown := True, lastPaintDay := Some d0, lastPaintRow := Some r0,
                dragPaintMode := mode\<rparr>"
  have wf0: "wellFormed (grid (ps_plan ?st0))" using wf by simp
  have vc0: "validCell (d0, r0)" using v0 c0 by simp
  from paintAt_valid [OF wf0 vc0, of viewStep mode]
  obtain p1 where p1: "applyRange d0 r0 viewStep ?v (ps_plan st) = Inr p1"
      "p1 = (ps_plan st)\<lparr>grid := grid p1\<rparr>" "wellFormed (grid p1)"
    and pa: "paintAt viewStep d0 r0 mode ?st0 =
           Inr (?st0\<lparr>ps_plan := p1, applied := applied st @ [(d0, r0, viewStep, ?v)]\<rparr>)"
    by auto
  let ?st1 = "?st0\<lparr>ps_plan := p1, applied := applied st @ [(d0, r0, viewStep, ?v)]\<rparr>"
  have down: "onCellPointerDown viewStep button buttons d0 r0 st = Inr ?st1"
    using pa mode by (simp add: onCellPointerDown_def Let_def)
  have sel: "selectedActivityId p1 = selectedActivityId (ps_plan st)"
    using p1(2) by (metis Plan.select_convs(5) Plan.surjective Plan.update_convs(4))
  have v1: "strokeValue (dragPaintMode ?st1) (ps_plan ?st1) = ?v"
    using sel by (simp add: strokeValue_def)
  have pre: "isMouseDown ?st1" "lastPaintDay ?st1 = Some (fst c0)" "lastPaintRow ?st1 = Some (snd c0)"
      "wellFormed (grid (ps_plan ?st1))"
    using c0 p1(3) by simp_all
  from continueStroke_run [OF pre vs, of viewStep]
  obtain st2 where run: "continueStroke viewStep cs ?st1 = Inr st2"
    and ap: "applied st2 = applied ?st1 @
        map (\<lambda>y. (fst y, snd y, viewStep, ?v)) (tl (remdups_adj (c0 # cs)))"
    and pc: "paintCells viewStep ?v (tl (remdups_adj (c0 # cs))) p1 = Inr (ps_plan st2)"
    unfolding v1 by auto
  have st: "stroke viewStep button buttons c0 cs st = Inr (onUp_paint st2)"
    using down run c0 by (simp add: stroke_def)
  obtain ws where ws: "remdups_adj (c0 # cs) = c0 # ws"
    using remdups_adj_head [of c0 cs] by blast
  have ap': "applied (onUp_paint st2) = applied st @
       map (\<lambda>x. (fst x, snd x, viewStep, ?v)) (remdups_adj (c0 # cs))"
    using ap c0 unfolding ws by (simp add: onUp_paint_def)
  have "paintCells viewStep ?v (remdups_adj (c0 # cs)) (ps_plan st) = Inr (ps_plan st2)"
    using p1(1) pc c0 unfolding ws by simp
  moreover have "paintCells viewStep ?v (firstSeen (c0 # cs)) (ps_plan st) =
      paintCells viewStep ?v (remdups_adj (c0 # cs)) (ps_plan st)"
  proof (rule paintCells_set [OF wf])
    show "\<forall>c \<in> set (remdups_adj (c0 # cs)). validCell c" using v0 vs by simp
    show "set (firstSeen (c0 # cs)) = set (remdups_adj (c0 # cs))"
      by (simp only: set_firstSeen remdups_adj_set)
  qed
  ultimately have "paintCells viewStep ?v (firstSeen (c0 # cs)) (ps_plan st) =
      Inr (ps_plan (onUp_paint st2))"
    by (simp add: onUp_paint_def)
  with st ap' show ?thesis by (auto simp: onUp_paint_def)
qed

lemma paintCells_append:
  "paintCells viewStep v (xs @ ys) p =
     (case paintCells viewStep v xs p of Inl e \<Rightarrow> Inl e | Inr p' \<Rightarrow> paintCells viewStep v ys p')"
  by (induction xs arbitrary: p) (auto split: sum.splits)

lemma paintCells_again:
  assumes wf: "wellFormed (grid p)" and v: "\<forall>c \<in> set cs. validCell c" and c: "c \<in> set cs"
    and run: "paintCells viewStep v cs p = Inr p'"
  shows "applyRange (fst c) (snd c) viewStep v p' = Inr p'"
proof -
  have "paintCells viewStep v (cs @ [c]) p = paintCells viewStep v cs p"
    using c by (intro paintCells_set [OF wf v]) auto
  then show ?thesis using run by (cases c) (simp add: paintCells_append split: sum.splits)
qed

lemma enter_same_cell:
  "lastPaintDay s = Some d \<and> lastPaintRow s = Some r \<Longrightarrow> onCellPointerEnter viewStep d r s = Inr s"
  by (simp add: onCellPointerEnter_def)

lemma enter_twice:
  "onCellPointerEnter viewStep d r s = Inr s1 \<Longrightarrow> onCellPointerEnter viewStep d r s1 = Inr s1"
  by (auto simp: onCellPointerEnter_def paintAt_def Let_def split: if_splits sum.splits)

lemma enter_after_down:
  "onCellPointerDown viewStep button buttons d r s = Inr s1 \<Longrightarrow>
     onCellPointerEnter viewStep d r s1 = Inr s1"
  by (auto simp: onCellPointerDown_def onCellPointerEnter_def paintAt_def Let_def
      split: if_splits sum.splits)

text \<open>
  C7. In a stroke over a grid of 7 by 288 cells, \<open>applyRange\<close> is called once for each
  maximal run of consecutive calls that name the same (day, coarse cell): a call that
  names the cell of the call before it performs no write and leaves the state as it
  is. A later call on a cell written earlier in the stroke writes the same value
  again: writing any cell of the stroke once more leaves the plan as it is, and the
  plan after the stroke is the plan with each distinct cell written once. The release
  resets the last painted cell.
\<close>

theorem stroke_deduplication:
  assumes "wellFormed (grid (ps_plan st))" "validCell c0" "\<forall>c \<in> set cs. validCell c"
  shows "(\<exists>st'. stroke viewStep button buttons c0 cs st = Inr st' \<and>
            applied st' = applied st @
              map (\<lambda>x. (fst x, snd x, viewStep,
                     strokeValue (if button = 2 \<or> buttons AND 2 = 2 then Erase else tool (ps_plan st))
                       (ps_plan st)))
                (remdups_adj (c0 # cs)) \<and>
            paintCells viewStep
              (strokeValue (if button = 2 \<or> buttons AND 2 = 2 then Erase else tool (ps_plan st))
                 (ps_plan st))
              (firstSeen (c0 # cs)) (ps_plan st) = Inr (ps_plan st') \<and>
            (\<forall>c \<in> set (c0 # cs).
               applyRange (fst c) (snd c) viewStep
                 (strokeValue (if button = 2 \<or> buttons AND 2 = 2 then Erase else tool (ps_plan st))
                    (ps_plan st))
                 (ps_plan st') = Inr (ps_plan st')) \<and>
            \<not> isMouseDown st' \<and> lastPaintDay st' = None \<and> lastPaintRow st' = None) \<and>
         (\<forall>d r s. lastPaintDay s = Some d \<and> lastPaintRow s = Some r \<longrightarrow>
            onCellPointerEnter viewStep d r s = Inr s) \<and>
         (\<forall>d r s s1. onCellPointerEnter viewStep d r s = Inr s1 \<longrightarrow>
            onCellPointerEnter viewStep d r s1 = Inr s1) \<and>
         (\<forall>d r s s1. onCellPointerDown viewStep button buttons d r s = Inr s1 \<longrightarrow>
            onCellPointerEnter viewStep d r s1 = Inr s1)"
proof -
  let ?v = "strokeValue (if button = 2 \<or> buttons AND 2 = 2 then Erase else tool (ps_plan st))
              (ps_plan st)"
  from stroke_run [OF assms refl, of viewStep button buttons]
  obtain st' where run: "stroke viewStep button buttons c0 cs st = Inr st'"
    and ap: "applied st' = applied st @
       map (\<lambda>x. (fst x, snd x, viewStep, ?v)) (remdups_adj (c0 # cs))"
    and pc: "paintCells viewStep ?v (firstSeen (c0 # cs)) (ps_plan st) = Inr (ps_plan st')"
    and up: "\<not> isMouseDown st'" "lastPaintDay st' = None" "lastPaintRow st' = None"
    by blast
  have vf: "\<forall>c \<in> set (firstSeen (c0 # cs)). validCell c"
    using assms(2,3) by (simp only: set_firstSeen) simp
  have again: "\<forall>c \<in> set (c0 # cs). applyRange (fst c) (snd c) viewStep ?v (ps_plan st') = Inr (ps_plan st')"
  proof
    fix c assume "c \<in> set (c0 # cs)"
    then have "c \<in> set (firstSeen (c0 # cs))" by (simp only: set_firstSeen)
    from paintCells_again [OF assms(1) vf this pc]
    show "applyRange (fst c) (snd c) viewStep ?v (ps_plan st') = Inr (ps_plan st')" .
  qed
  show ?thesis
    using run ap pc again up enter_same_cell enter_twice enter_after_down by blast
qed

theorem stroke_deduplication_witness:
  "wellFormed (grid (ps_plan idlePaint)) \<and> validCell (0, 0) \<and>
   (\<exists>st'. stroke 12 0 1 (0, 0) [(0, 0), (0, 12), (0, 12), (0, 0), (0, 0)] idlePaint = Inr st' \<and>
      applied st' = [(0, 0, 12, Some ''A''), (0, 12, 12, Some ''A''), (0, 0, 12, Some ''A'')] \<and>
      paintCells 12 (Some ''A'') [(0, 0), (0, 12)] planABCD = Inr (ps_plan st') \<and>
      onCellPointerEnter 12 2 24 (idlePaint\<lparr>isMouseDown := True, lastPaintDay := Some 2, lastPaintRow := Some 24\<rparr>) =
        Inr (idlePaint\<lparr>isMouseDown := True, lastPaintDay := Some 2, lastPaintRow := Some 24\<rparr>))"
proof -
  have wf: "wellFormed (grid (ps_plan idlePaint))"
    by (simp add: idlePaint_def planABCD_def wellFormed_buildEmptyWeek)
  have v0: "validCell (0, 0)" by (simp add: validCell_def)
  have vs: "\<forall>c \<in> set [(0, 0), (0, 12), (0, 12), (0, 0), (0, 0)]. validCell c"
    by (simp add: validCell_def)
  have sv: "strokeValue (tool planABCD) planABCD = Some ''A''"
    by (simp add: strokeValue_def planABCD_def)
  have pl: "ps_plan idlePaint = planABCD" "applied idlePaint = []" by (simp_all add: idlePaint_def)
  from stroke_deduplication [OF wf v0 vs, of 12 0 1] show ?thesis
    using wf v0 by (simp add: pl sv) blast
qed

text \<open>
  The writes are one per run, not one per distinct cell: the stroke that begins on the
  cell (Monday, row 0), enters (Monday, row 12) and comes back to (Monday, row 0)
  touches two distinct cells and calls \<open>applyRange\<close> three times, twice on (Monday,
  row 0).
\<close>

theorem stroke_deduplication_counterexample:
  "\<exists>st'. stroke 12 0 1 (0, 0) [(0, 12), (0, 0)] idlePaint = Inr st' \<and>
      applied st' = [(0, 0, 12, Some ''A''), (0, 12, 12, Some ''A''), (0, 0, 12, Some ''A'')] \<and>
      length (applied st') = 3 \<and>
      firstSeen ((0, 0) # [(0, 12), (0, 0 :: int)] :: (int \<times> int) list) = [(0, 0), (0, 12)]"
proof -
  have wf: "wellFormed (grid (ps_plan idlePaint))"
    by (simp add: idlePaint_def planABCD_def wellFormed_buildEmptyWeek)
  have v0: "validCell (0, 0)" by (simp add: validCell_def)
  have vs: "\<forall>c \<in> set [(0, 12), (0, 0)]. validCell c"
    by (simp add: validCell_def)
  have sv: "strokeValue (tool planABCD) planABCD = Some ''A''"
    by (simp add: strokeValue_def planABCD_def)
  have pl: "ps_plan idlePaint = planABCD" "applied idlePaint = []" by (simp_all add: idlePaint_def)
  from stroke_run [OF wf v0 vs refl, of 12 0 1]
  obtain st' where run: "stroke 12 0 1 (0, 0) [(0, 12), (0, 0)] idlePaint = Inr st'"
    and ap: "applied st' =
      [(0, 0, 12, Some ''A''), (0, 12, 12, Some ''A''), (0, 0, 12, Some ''A'')]"
    by (auto simp: pl sv)
  have c: "firstSeen ((0, 0) # [(0, 12), (0, 0 :: int)] :: (int \<times> int) list) = [(0, 0), (0, 12)]"
    by simp
  from run ap c show ?thesis by simp
qed

section \<open>Importing a document\<close>

lemma rejected_iff:
  "\<not> (\<exists>v. parsed = Inr v \<and> validDocument v) \<Longrightarrow>
     \<exists>msg. applyImport parsed st = st\<lparr>jsonStatus := Some (StatusError, msg)\<rparr>"
proof (cases parsed)
  case (Inl err)
  then show ?thesis by (auto simp: applyImport_def)
next
  case (Inr v)
  assume "\<not> (\<exists>v. parsed = Inr v \<and> validDocument v)"
  with Inr have nv: "\<not> validDocument v" by simp
  show ?thesis
  proof (cases "arrayProp v ''plans''")
    case None
    with Inr show ?thesis by (auto simp: applyImport_def)
  next
    case (Some ps)
    with Inr nv show ?thesis by (auto simp: applyImport_def validDocument_def)
  qed
qed

lemma accepted_iff:
  "validDocument v \<Longrightarrow>
     \<exists>ps a. arrayProp v ''plans'' = Some ps \<and>
       applyImport (Inr v) st =
         st\<lparr>st_plans := ps, st_activePlanId := a,
            jsonStatus := Some (StatusOk, ''Imported successfully.'')\<rparr>"
  by (cases "arrayProp v ''plans''") (auto simp: applyImport_def validDocument_def)

lemma gridOk_shape:
  "arrayProp p ''grid'' = Some cols \<Longrightarrow>
     length cols \<noteq> 7 \<or> (\<exists>col \<in> set cols. \<not> isArrayOfLength 288 col) \<Longrightarrow> \<not> gridOk p"
  by (auto simp: gridOk_def list_all_iff)

lemma bad_plan_invalid:
  "arrayProp v ''plans'' = Some ps \<Longrightarrow> p \<in> set ps \<Longrightarrow> \<not> planOk p \<Longrightarrow> \<not> validDocument v"
  by (auto simp: validDocument_def list_all_iff)

lemma no_plans_invalid:
  "arrayProp v ''plans'' = None \<or> arrayProp v ''plans'' = Some [] \<Longrightarrow> \<not> validDocument v"
  by (auto simp: validDocument_def)

lemma planOk_fields:
  "map_of fs ''id'' = Some (JStr i) \<Longrightarrow> map_of fs ''name'' = Some (JStr n) \<Longrightarrow>
   map_of fs ''activities'' = Some (JArr acts) \<Longrightarrow> gridOk (JObj fs) \<Longrightarrow> planOk (JObj fs)"
  by (simp add: planOk_def truthy_def typeofObject_def stringProp_def arrayProp_def getProp_def)

lemma no_activities_rejected:
  assumes "arrayProp v ''plans'' = Some ps" "p \<in> set ps" "arrayProp p ''activities'' = None"
  shows "\<exists>msg. applyImport (Inr v) st = st\<lparr>jsonStatus := Some (StatusError, msg)\<rparr>"
proof -
  have "\<not> planOk p" using assms(3) by (simp add: planOk_def)
  then have "\<not> validDocument v" using assms(1,2) by (rule bad_plan_invalid [rotated 2])
  then show ?thesis by (intro rejected_iff) simp
qed

lemma accepted_plans:
  assumes "map_of ds ''plans'' = Some (JArr ps)" "ps \<noteq> []" "list_all planOk ps"
  shows "\<exists>a. applyImport (Inr (JObj ds)) st =
           st\<lparr>st_plans := ps, st_activePlanId := a,
              jsonStatus := Some (StatusOk, ''Imported successfully.'')\<rparr>"
proof -
  have ap: "arrayProp (JObj ds) ''plans'' = Some ps"
    using assms(1) by (simp add: arrayProp_def getProp_def)
  then have "validDocument (JObj ds)"
    using assms(2,3) by (simp add: validDocument_def truthy_def typeofObject_def)
  from accepted_iff [OF this, of st] ap show ?thesis by auto
qed

lemma gridOk_emptyGridJson: "map_of fs ''grid'' = Some emptyGridJson \<Longrightarrow> gridOk (JObj fs)"
  by (simp add: gridOk_def arrayProp_def getProp_def emptyGridJson_def list_all_iff
      isArrayOfLength_def)

text \<open>
  C8. A parsed value fails the check when its \<open>plans\<close> is missing, is no array or is
  empty, or when some plan's \<open>grid\<close> is missing, is no array, has a number of columns
  other than 7 (6, say) or has a column that is not an array of exactly 288 entries.
  Whenever the check fails, and whenever the text does not parse, \<open>applyImport\<close>
  changes \<open>jsonStatus\<close> to an error with a message and nothing else: the plans, with
  their grids, and the active plan id stay as they were.
\<close>

theorem applyImport_rejects_invalid:
  "((arrayProp v ''plans'' = None \<or> arrayProp v ''plans'' = Some [] \<or>
     (\<exists>ps p. arrayProp v ''plans'' = Some ps \<and> p \<in> set ps \<and>
        (arrayProp p ''grid'' = None \<or>
         (\<exists>cols. arrayProp p ''grid'' = Some cols \<and>
            (length cols \<noteq> 7 \<or> (\<exists>col \<in> set cols. \<not> isArrayOfLength 288 col)))))) \<longrightarrow>
      \<not> validDocument v) \<and>
   (\<not> validDocument v \<longrightarrow>
      (\<exists>msg. applyImport (Inr v) st = st\<lparr>jsonStatus := Some (StatusError, msg)\<rparr>)) \<and>
   applyImport (Inl err) st = st\<lparr>jsonStatus := Some (StatusError, err)\<rparr>"
proof (intro conjI impI)
  assume h: "arrayProp v ''plans'' = None \<or> arrayProp v ''plans'' = Some [] \<or>
     (\<exists>ps p. arrayProp v ''plans'' = Some ps \<and> p \<in> set ps \<and>
        (arrayProp p ''grid'' = None \<or>
         (\<exists>cols. arrayProp p ''grid'' = Some cols \<and>
            (length cols \<noteq> 7 \<or> (\<exists>col \<in> set cols. \<not> isArrayOfLength 288 col)))))"
  show "\<not> validDocument v"
  proof (cases "arrayProp v ''plans'' = None \<or> arrayProp v ''plans'' = Some []")
    case True
    then show ?thesis by (rule no_plans_invalid)
  next
    case False
    with h obtain ps p where ps: "arrayProp v ''plans'' = Some ps" "p \<in> set ps"
      and g: "arrayProp p ''grid'' = None \<or>
         (\<exists>cols. arrayProp p ''grid'' = Some cols \<and>
            (length cols \<noteq> 7 \<or> (\<exists>col \<in> set cols. \<not> isArrayOfLength 288 col)))"
      by blast
    have "\<not> gridOk p"
      using g by (auto simp: gridOk_def dest: gridOk_shape)
    then have "\<not> planOk p" by (simp add: planOk_def)
    with ps show ?thesis by (rule bad_plan_invalid)
  qed
next
  assume "\<not> validDocument v"
  then show "\<exists>msg. applyImport (Inr v) st = st\<lparr>jsonStatus := Some (StatusError, msg)\<rparr>"
    by (intro rejected_iff) simp
next
  show "applyImport (Inl err) st = st\<lparr>jsonStatus := Some (StatusError, err)\<rparr>"
    by (simp add: applyImport_def)
qed

theorem applyImport_rejects_invalid_witness:
  "arrayProp docSixColumns ''plans'' = Some [planSixColumns] \<and>
   arrayProp planSixColumns ''grid'' = Some (replicate 6 (JArr (replicate 288 JNull))) \<and>
   (\<exists>msg. applyImport (Inr docSixColumns) importIdle =
            importIdle\<lparr>jsonStatus := Some (StatusError, msg)\<rparr>)"
proof -
  have pl: "arrayProp docSixColumns ''plans'' = Some [planSixColumns]"
    by (simp add: docSixColumns_def arrayProp_def getProp_def)
  have gr: "arrayProp planSixColumns ''grid'' = Some (replicate 6 (JArr (replicate 288 JNull)))"
    by (simp add: planSixColumns_def arrayProp_def getProp_def)
  have "\<exists>ps p. arrayProp docSixColumns ''plans'' = Some ps \<and> p \<in> set ps \<and>
        (arrayProp p ''grid'' = None \<or>
         (\<exists>cols. arrayProp p ''grid'' = Some cols \<and>
            (length cols \<noteq> 7 \<or> (\<exists>col \<in> set cols. \<not> isArrayOfLength 288 col))))"
    using pl gr by (intro exI [of _ "[planSixColumns]"] exI [of _ planSixColumns]) simp
  with applyImport_rejects_invalid [of docSixColumns importIdle]
  have "\<exists>msg. applyImport (Inr docSixColumns) importIdle =
            importIdle\<lparr>jsonStatus := Some (StatusError, msg)\<rparr>"
    by blast
  with pl gr show ?thesis by blast
qed

text \<open>
  C9. The import check rejects a document in which some plan's \<open>activities\<close> is missing
  or is no array. It does not look into the entries of \<open>activities\<close>: a plan object with
  a string \<open>id\<close>, a string \<open>name\<close>, an array \<open>activities\<close> of any entries and a grid of 7
  columns of 288 entries passes, and a document whose \<open>plans\<close> is a non-empty array of
  plans that pass is imported.
\<close>

theorem applyImport_activities_check:
  "(arrayProp v ''plans'' = Some ps \<and> p \<in> set ps \<and> arrayProp p ''activities'' = None \<longrightarrow>
      (\<exists>msg. applyImport (Inr v) st = st\<lparr>jsonStatus := Some (StatusError, msg)\<rparr>)) \<and>
   (map_of fs ''id'' = Some (JStr i) \<and> map_of fs ''name'' = Some (JStr n) \<and>
    map_of fs ''activities'' = Some (JArr acts) \<and> gridOk (JObj fs) \<longrightarrow> planOk (JObj fs)) \<and>
   (map_of ds ''plans'' = Some (JArr qs) \<and> qs \<noteq> [] \<and> list_all planOk qs \<longrightarrow>
      (\<exists>a. applyImport (Inr (JObj ds)) st =
           st\<lparr>st_plans := qs, st_activePlanId := a,
              jsonStatus := Some (StatusOk, ''Imported successfully.'')\<rparr>))"
  using no_activities_rejected [of v ps p st] planOk_fields [of fs i n acts]
    accepted_plans [of ds qs st]
  by blast

lemma planOk_planBadActivity: "planOk planBadActivity"
  unfolding planBadActivity_def
  by (rule planOk_fields [OF _ _ _ gridOk_emptyGridJson]) simp_all

text \<open>
  So a document is imported although an activity entry has neither \<open>id\<close> nor \<open>name\<close>,
  and another is a number.
\<close>

theorem applyImport_activities_check_counterexample:
  "arrayProp docBadActivity ''plans'' = Some [planBadActivity] \<and>
   arrayProp planBadActivity ''activities'' = Some [JObj [(''colour'', JStr ''#E11D48'')], JNum 7] \<and>
   stringProp (JObj [(''colour'', JStr ''#E11D48'')]) ''id'' = None \<and>
   stringProp (JObj [(''colour'', JStr ''#E11D48'')]) ''name'' = None \<and>
   applyImport (Inr docBadActivity) importIdle =
     importIdle\<lparr>st_plans := [planBadActivity], st_activePlanId := Some ''p_1'',
                jsonStatus := Some (StatusOk, ''Imported successfully.'')\<rparr>"
proof -
  have pl: "arrayProp docBadActivity ''plans'' = Some [planBadActivity]"
    by (simp add: docBadActivity_def arrayProp_def getProp_def)
  have ac: "arrayProp planBadActivity ''activities'' =
      Some [JObj [(''colour'', JStr ''#E11D48'')], JNum 7]"
    by (simp add: planBadActivity_def arrayProp_def getProp_def)
  have ob: "truthy docBadActivity" "typeofObject docBadActivity"
    by (simp_all add: docBadActivity_def truthy_def typeofObject_def)
  have ap: "stringProp docBadActivity ''activePlanId'' = None"
    by (simp add: docBadActivity_def stringProp_def getProp_def)
  have i: "stringProp planBadActivity ''id'' = Some ''p_1''"
    by (simp add: planBadActivity_def stringProp_def getProp_def)
  have no: "stringProp (JObj [(''colour'', JStr ''#E11D48'')]) ''id'' = None"
    "stringProp (JObj [(''colour'', JStr ''#E11D48'')]) ''name'' = None"
    by (simp_all add: stringProp_def getProp_def)
  have "applyImport (Inr docBadActivity) importIdle =
     importIdle\<lparr>st_plans := [planBadActivity], st_activePlanId := Some ''p_1'',
                jsonStatus := Some (StatusOk, ''Imported successfully.'')\<rparr>"
    unfolding applyImport_def by (simp add: pl ob ap i planOk_planBadActivity)
  with pl ac no show ?thesis by simp
qed

theorem applyImport_activities_check_witness:
  "(\<exists>a. applyImport (Inr docBadActivity) importIdle =
      importIdle\<lparr>st_plans := [planBadActivity], st_activePlanId := a,
                 jsonStatus := Some (StatusOk, ''Imported successfully.'')\<rparr>) \<and>
   (\<exists>msg. applyImport (Inr (JObj [(''plans'', JArr [JObj [(''id'', JStr ''p_1'')]])])) importIdle =
      importIdle\<lparr>jsonStatus := Some (StatusError, msg)\<rparr>)"
proof -
  have h1: "map_of [(''version'', JNum 3), (''activePlanId'', JNull), (''plans'', JArr [planBadActivity])]
      ''plans'' = Some (JArr [planBadActivity]) \<and> [planBadActivity] \<noteq> [] \<and>
      list_all planOk [planBadActivity]"
    by (simp add: planOk_planBadActivity)
  have h2: "arrayProp (JObj [(''plans'', JArr [JObj [(''id'', JStr ''p_1'')]])]) ''plans'' =
      Some [JObj [(''id'', JStr ''p_1'')]] \<and>
      JObj [(''id'', JStr ''p_1'')] \<in> set [JObj [(''id'', JStr ''p_1'')]] \<and>
      arrayProp (JObj [(''id'', JStr ''p_1'')]) ''activities'' = None"
    by (simp add: arrayProp_def getProp_def)
  from applyImport_activities_check
    [of "JObj [(''plans'', JArr [JObj [(''id'', JStr ''p_1'')]])]" "[JObj [(''id'', JStr ''p_1'')]]"
        "JObj [(''id'', JStr ''p_1'')]" importIdle _ _ _ _
        "[(''version'', JNum 3), (''activePlanId'', JNull), (''plans'', JArr [planBadActivity])]"
        "[planBadActivity]"]
    h1 h2
  show ?thesis unfolding docBadActivity_def by blast
qed

end
